theory Spec2Isabelle
  imports Main "HOL-Library.AList" "HOL-Library.Sublist"
begin

section \<open>Data model of the harness assembly in \<open>wireviz.py\<close>\<close>

text \<open>
  The function \<open>parse\<close> of \<open>src/wireviz/wireviz.py\<close> reads the sections
  \<open>connectors\<close>, \<open>cables\<close> and \<open>connections\<close> of the YAML tree and populates a
  harness. Python dictionaries keep their insertion order, so every dictionary is an
  association list: lookup is \<open>map_of\<close>, and \<open>d[k] = v\<close> is \<open>AList.update k v\<close>
  (replace in place, or append a new key at the end).

  A pin is what \<open>expand\<close> returns for one position: a Python \<open>int\<close> or a \<open>str\<close>.
\<close>

datatype pin = PInt int | PStr string

text \<open>
  The members of a list entry: a token (\<open>str\<close>) in the input, a single-key mapping
  \<open>{designator: pin}\<close> after the pin lists have been expanded.
\<close>

datatype item = Tok string | Ref string pin

text \<open>
  One entry of a connection set: a string, a list, or a mapping from a token to a pin
  specification. The pin specification is whatever \<open>expand\<close> accepts (type \<open>'v\<close>).
\<close>

datatype 'v entry = EStr string | EList "item list" | EDict "(string \<times> 'v) list"

text \<open>The two component types, the strings \<open>"connector"\<close> and \<open>"cable"\<close>.\<close>

datatype kind = Connector | Cable

text \<open>
  Every \<open>raise\<close> of the source is a value. The source raises \<open>Exception\<close> (and
  \<open>ValueError\<close> for the missing connection count) with a message; the constructors are
  named after the error kinds of the specification and carry what the message names.
  The \<open>Py\<close> constructors are the exceptions Python itself raises on an ill-shaped value.
\<close>

datatype error =
    AmbiguousSeparatorError string
  | DesignatorConflictError string string string
  | UnknownTemplateError string
  | MissingConnectionCountError
  | ConnectionCountMismatchError
  | TypeAlternationViolationError kind string string kind
  | PyIndexError
  | PyKeyError
  | PyTypeError
  | PyAttributeError
  | PyValueError

text \<open>
  The two dictionaries that \<open>resolve_designator\<close> closes over:
  \<open>designators_and_templates\<close> and \<open>autogenerated_designators\<close>.
\<close>

record resolver =
  designators_and_templates :: "(string \<times> string) list"
  autogenerated_designators :: "(string \<times> nat) list"

definition empty_resolver :: resolver where
  "empty_resolver = \<lparr>designators_and_templates = [], autogenerated_designators = []\<rparr>"

section \<open>Designator resolution\<close>

text \<open>Python's \<open>str\<close> of a non-negative integer: its decimal digits.\<close>

definition digit_char :: "nat \<Rightarrow> char" where
  "digit_char n = ''0123456789'' ! n"

fun str_nat :: "nat \<Rightarrow> string" where
  "str_nat n = (if n < 10 then [digit_char n] else str_nat (n div 10) @ [digit_char (n mod 10)])"

declare str_nat.simps [simp del]

text \<open>
  The f-string \<open>f"{AUTOGENERATED_PREFIX}{template}_{counter}"\<close>. The constant
  \<open>AUTOGENERATED_PREFIX\<close> is imported from \<open>wv_dataclasses\<close>, which is not part of the
  sources at hand; it is the parameter \<open>pfx\<close> throughout.
\<close>

definition auto_name :: "string \<Rightarrow> string \<Rightarrow> nat \<Rightarrow> string" where
  "auto_name pfx template k = pfx @ template @ ''_'' @ str_nat k"

text \<open>\<open>autogenerated_designators.get(template, 0)\<close>\<close>

definition get0 :: "(string \<times> nat) list \<Rightarrow> string \<Rightarrow> nat" where
  "get0 d k = (case map_of d k of None \<Rightarrow> 0 | Some c \<Rightarrow> c)"

text \<open>
  \<open>resolve_designator(inp, separator)\<close>, lines 157 to 185. The separator is the option
  \<open>template_separator\<close>, a single character. With exactly one separator in \<open>inp\<close>,
  \<open>inp.split(separator)\<close> is the part before it and the part after it.
  The function returns the updated dictionaries with the pair \<open>(template, designator)\<close>.
\<close>

definition resolve_designator ::
  "string \<Rightarrow> resolver \<Rightarrow> string \<Rightarrow> char \<Rightarrow> error + (resolver \<times> string \<times> string)" where
  "resolve_designator pfx rs inp separator =
    (if separator \<in> set inp then
       (if count_list inp separator > 1 then Inl (AmbiguousSeparatorError inp)
        else
          let template = takeWhile (\<lambda>c. c \<noteq> separator) inp;
              suffix = tl (dropWhile (\<lambda>c. c \<noteq> separator) inp);
              rs1 = (if suffix = [] then
                       rs\<lparr>autogenerated_designators :=
                            AList.update template (get0 (autogenerated_designators rs) template + 1)
                              (autogenerated_designators rs)\<rparr>
                     else rs);
              designator = (if suffix = [] then
                              auto_name pfx template (get0 (autogenerated_designators rs1) template)
                            else suffix)
          in (case map_of (designators_and_templates rs1) designator of
                Some t \<Rightarrow>
                  if t \<noteq> template then Inl (DesignatorConflictError designator t template)
                  else Inr (rs1, template, designator)
              | None \<Rightarrow>
                  Inr (rs1\<lparr>designators_and_templates :=
                             AList.update designator template (designators_and_templates rs1)\<rparr>,
                       template, designator)))
     else
       (case map_of (designators_and_templates rs) inp of
          Some t \<Rightarrow> Inr (rs, inp, inp)
        | None \<Rightarrow>
            Inr (rs\<lparr>designators_and_templates :=
                      AList.update inp inp (designators_and_templates rs)\<rparr>, inp, inp)))"

text \<open>
  A run of resolutions, one token after the other on the same dictionaries. Every call
  of \<open>resolve_designator\<close> in a build (lines 239 and 245) is a step of such a run,
  and an exception ends it.
\<close>

fun resolve_all ::
  "string \<Rightarrow> char \<Rightarrow> resolver \<Rightarrow> string list \<Rightarrow> error + (resolver \<times> (string \<times> string) list)" where
  "resolve_all pfx sep rs [] = Inr (rs, [])"
| "resolve_all pfx sep rs (tok # toks) =
     (case resolve_designator pfx rs tok sep of
        Inl e \<Rightarrow> Inl e
      | Inr (rs1, r) \<Rightarrow>
          (case resolve_all pfx sep rs1 toks of
             Inl e \<Rightarrow> Inl e
           | Inr (rs2, rs_out) \<Rightarrow> Inr (rs2, r # rs_out)))"

section \<open>Normalisation of a connection set\<close>

text \<open>
  The number of parallel connections, lines 208 to 228. Every list entry contributes its
  length, every mapping entry the length of the expanded pin list of its first value
  (\<open>list(entry.values())[0]\<close>, an \<open>IndexError\<close> on an empty mapping), a string nothing.
  The function \<open>expand\<close> comes from \<open>wv_utils\<close>, which is not part of the sources at
  hand; it is a parameter of everything that calls it.
\<close>

fun connectioncount :: "('v \<Rightarrow> pin list) \<Rightarrow> 'v entry list \<Rightarrow> error + nat list" where
  "connectioncount expand [] = Inr []"
| "connectioncount expand (EList xs # es) =
     (case connectioncount expand es of Inl e \<Rightarrow> Inl e | Inr cc \<Rightarrow> Inr (length xs # cc))"
| "connectioncount expand (EDict [] # es) = Inl PyIndexError"
| "connectioncount expand (EDict ((k, v) # kvs) # es) =
     (case connectioncount expand es of
        Inl e \<Rightarrow> Inl e
      | Inr cc \<Rightarrow> Inr (length (expand v) # cc))"
| "connectioncount expand (EStr s # es) = connectioncount expand es"

text \<open>
  \<open>any(connectioncount)\<close> is true when some count is not zero;
  \<open>len(set(connectioncount)) > 1\<close> counts the distinct values.
\<close>

definition determine_count :: "('v \<Rightarrow> pin list) \<Rightarrow> 'v entry list \<Rightarrow> error + nat" where
  "determine_count expand cs =
     (case connectioncount expand cs of
        Inl e \<Rightarrow> Inl e
      | Inr cc \<Rightarrow>
          if \<not> list_ex (\<lambda>c. c \<noteq> 0) cc then Inl MissingConnectionCountError
          else if length (remdups cc) > 1 then Inl ConnectionCountMismatchError
          else (case cc of [] \<Rightarrow> Inl PyIndexError | c # _ \<Rightarrow> Inr c))"

text \<open>Lines 230 to 233: a string entry becomes a list of \<open>connectioncount\<close> copies.\<close>

definition expand_strings :: "nat \<Rightarrow> 'v entry list \<Rightarrow> 'v entry list" where
  "expand_strings n cs =
     map (\<lambda>entry. case entry of EStr s \<Rightarrow> EList (replicate n (Tok s)) | _ \<Rightarrow> entry) cs"

text \<open>
  Lines 235 to 249: every member of a list entry and the first key of every mapping entry
  is resolved, in order, and replaced by its designator. A list member that is a mapping
  makes \<open>resolve_designator\<close> raise: \<open>separator in inp\<close> tests its key, then
  \<open>inp.count\<close> does not exist, or the mapping is not hashable.
\<close>

fun resolve_items ::
  "string \<Rightarrow> char \<Rightarrow> resolver \<Rightarrow> item list \<Rightarrow> error + (resolver \<times> item list)" where
  "resolve_items pfx sep rs [] = Inr (rs, [])"
| "resolve_items pfx sep rs (Tok s # its) =
     (case resolve_designator pfx rs s sep of
        Inl e \<Rightarrow> Inl e
      | Inr (rs1, template, designator) \<Rightarrow>
          (case resolve_items pfx sep rs1 its of
             Inl e \<Rightarrow> Inl e
           | Inr (rs2, its') \<Rightarrow> Inr (rs2, Tok designator # its')))"
| "resolve_items pfx sep rs (Ref d p # its) =
     Inl (if d = [sep] then PyAttributeError else PyTypeError)"

fun resolve_entries ::
  "string \<Rightarrow> char \<Rightarrow> resolver \<Rightarrow> 'v entry list \<Rightarrow> error + (resolver \<times> 'v entry list)" where
  "resolve_entries pfx sep rs [] = Inr (rs, [])"
| "resolve_entries pfx sep rs (EList its # es) =
     (case resolve_items pfx sep rs its of
        Inl e \<Rightarrow> Inl e
      | Inr (rs1, its') \<Rightarrow>
          (case resolve_entries pfx sep rs1 es of
             Inl e \<Rightarrow> Inl e
           | Inr (rs2, es') \<Rightarrow> Inr (rs2, EList its' # es')))"
| "resolve_entries pfx sep rs (EDict [] # es) = Inl PyIndexError"
| "resolve_entries pfx sep rs (EDict ((key, val) # kvs) # es) =
     (case resolve_designator pfx rs key sep of
        Inl e \<Rightarrow> Inl e
      | Inr (rs1, template, designator) \<Rightarrow>
          (case resolve_entries pfx sep rs1 es of
             Inl e \<Rightarrow> Inl e
           | Inr (rs2, es') \<Rightarrow> Inr (rs2, EDict [(designator, val)] # es')))"
| "resolve_entries pfx sep rs (EStr s # es) =
     (case resolve_entries pfx sep rs es of
        Inl e \<Rightarrow> Inl e
      | Inr (rs2, es') \<Rightarrow> Inr (rs2, EStr s # es'))"

text \<open>The first error of a list of results, in order; all the values otherwise.\<close>

fun those_ok :: "(error + 'a) list \<Rightarrow> error + 'a list" where
  "those_ok [] = Inr []"
| "those_ok (Inl e # rs) = Inl e"
| "those_ok (Inr x # rs) = (case those_ok rs of Inl e \<Rightarrow> Inl e | Inr xs \<Rightarrow> Inr (x # xs))"

text \<open>
  Lines 251 to 260: a list entry becomes the list of \<open>{designator: 1}\<close>, a mapping
  entry the list of \<open>{designator: pin}\<close> over the expanded pin list of its first key.
  A mapping cannot be the key of \<open>{designator: 1}\<close> (\<open>TypeError\<close>).
\<close>

definition pin_item :: "item \<Rightarrow> error + item" where
  "pin_item it = (case it of Tok designator \<Rightarrow> Inr (Ref designator (PInt 1)) | Ref d p \<Rightarrow> Inl PyTypeError)"

definition expand_entry :: "('v \<Rightarrow> pin list) \<Rightarrow> 'v entry \<Rightarrow> error + 'v entry" where
  "expand_entry expand entry =
     (case entry of
        EList its \<Rightarrow> (case those_ok (map pin_item its) of Inl e \<Rightarrow> Inl e | Inr rs \<Rightarrow> Inr (EList rs))
      | EDict kvs \<Rightarrow>
          (case kvs of
             [] \<Rightarrow> Inl PyIndexError
           | (designator, val) # _ \<Rightarrow> Inr (EList (map (Ref designator) (expand val))))
      | EStr s \<Rightarrow> Inr (EStr s))"

definition expand_pin_lists :: "('v \<Rightarrow> pin list) \<Rightarrow> 'v entry list \<Rightarrow> error + 'v entry list" where
  "expand_pin_lists expand cs = those_ok (map (expand_entry expand) cs)"

text \<open>The three steps in a row, lines 208 to 260, with the agreed count.\<close>

definition normalize_set ::
  "string \<Rightarrow> char \<Rightarrow> ('v \<Rightarrow> pin list) \<Rightarrow> resolver \<Rightarrow> 'v entry list
     \<Rightarrow> error + (resolver \<times> nat \<times> 'v entry list)" where
  "normalize_set pfx sep expand rs cs =
     (case determine_count expand cs of
        Inl e \<Rightarrow> Inl e
      | Inr n \<Rightarrow>
          (case resolve_entries pfx sep rs (expand_strings n cs) of
             Inl e \<Rightarrow> Inl e
           | Inr (rs1, cs2) \<Rightarrow>
               (case expand_pin_lists expand cs2 of
                  Inl e \<Rightarrow> Inl e
                | Inr cs3 \<Rightarrow> Inr (rs1, n, cs3))))"

section \<open>The harness\<close>

text \<open>
  A connection as \<open>harness.connect\<close> receives it: the endpoint before the cable (or
  \<open>None, None\<close>), the cable and its wire, the endpoint after the cable (or \<open>None, None\<close>).
\<close>

datatype connection = Connection "(string \<times> pin) option" "string \<times> pin" "(string \<times> pin) option"

text \<open>
  Modelled from the spec: the class \<open>Harness\<close> of \<open>wv_harness\<close> is not part of the
  sources at hand. The specification gives it the connector instances and the cable
  instances, each created from the attributes of its template under its designator, and
  an ordered list of connection records. \<open>'a\<close> is the attribute bag of a template.
\<close>

record 'a harness =
  connectors :: "(string \<times> 'a) list"
  cables :: "(string \<times> 'a) list"
  connections :: "connection list"

definition empty_harness :: "'a harness" where
  "empty_harness = \<lparr>connectors = [], cables = [], connections = []\<rparr>"

text \<open>Modelled from the spec: \<open>Harness.add_connector\<close> registers a new connector instance.\<close>

definition add_connector :: "'a harness \<Rightarrow> string \<Rightarrow> 'a \<Rightarrow> 'a harness" where
  "add_connector h designator attribs = h\<lparr>connectors := AList.update designator attribs (connectors h)\<rparr>"

text \<open>Modelled from the spec: \<open>Harness.add_cable\<close> registers a new cable instance.\<close>

definition add_cable :: "'a harness \<Rightarrow> string \<Rightarrow> 'a \<Rightarrow> 'a harness" where
  "add_cable h designator attribs = h\<lparr>cables := AList.update designator attribs (cables h)\<rparr>"

text \<open>Modelled from the spec: \<open>Harness.connect\<close> emits one connection record.\<close>

definition connect ::
  "'a harness \<Rightarrow> (string \<times> pin) option \<Rightarrow> string \<times> pin \<Rightarrow> (string \<times> pin) option \<Rightarrow> 'a harness" where
  "connect h from_ep via_ep to_ep = h\<lparr>connections := connections h @ [Connection from_ep via_ep to_ep]\<rparr>"

text \<open>
  Modelled from the spec: \<open>get_single_key_and_value\<close> of \<open>wv_utils\<close> is not part of the
  sources at hand; it returns the key and the value of a single-key mapping.
\<close>

definition get_single_key_and_value :: "string \<times> pin \<Rightarrow> string \<times> pin" where
  "get_single_key_and_value kv = kv"

section \<open>Generating the components\<close>

text \<open>
  \<open>check_type\<close> and \<open>alternate_type\<close>, lines 189 to 204. The variable
  \<open>expected_type\<close> is \<open>None\<close> or one of the two strings; it is passed in and returned.
  \<open>alternating_types.index(None)\<close> raises \<open>ValueError\<close>.
\<close>

definition check_type :: "kind option \<Rightarrow> string \<Rightarrow> string \<Rightarrow> kind \<Rightarrow> error + kind option" where
  "check_type expected_type designator template actual_type =
     (let expected = (case expected_type of None \<Rightarrow> actual_type | Some e \<Rightarrow> e)
      in if actual_type \<noteq> expected
         then Inl (TypeAlternationViolationError expected designator template actual_type)
         else Inr (Some expected))"

definition alternate_type :: "kind option \<Rightarrow> error + kind option" where
  "alternate_type expected_type =
     (case expected_type of
        None \<Rightarrow> Inl PyValueError
      | Some Connector \<Rightarrow> Inr (Some Cable)
      | Some Cable \<Rightarrow> Inr (Some Connector))"

text \<open>
  The body of the loop over the members of an entry, lines 271 to 294. The templates are
  the two dictionaries \<open>template_connectors\<close> and \<open>template_cables\<close>; \<open>dts\<close> is
  \<open>designators_and_templates\<close>. A member that is not a mapping has no \<open>keys\<close>.
\<close>

definition gen_item ::
  "(string \<times> 'a) list \<Rightarrow> (string \<times> 'a) list \<Rightarrow> (string \<times> string) list
     \<Rightarrow> 'a harness \<times> kind option \<Rightarrow> item \<Rightarrow> error + ('a harness \<times> kind option)" where
  "gen_item template_connectors template_cables dts st it =
     (case it of
        Tok s \<Rightarrow> Inl PyAttributeError
      | Ref designator p \<Rightarrow>
          (case map_of dts designator of
             None \<Rightarrow> Inl PyKeyError
           | Some template \<Rightarrow>
               if designator \<in> fst ` set (connectors (fst st)) then
                 (case check_type (snd st) designator template Connector of
                    Inl e \<Rightarrow> Inl e
                  | Inr ex \<Rightarrow> Inr (fst st, ex))
               else
                 (case map_of template_connectors template of
                    Some attribs \<Rightarrow>
                      (case check_type (snd st) designator template Connector of
                         Inl e \<Rightarrow> Inl e
                       | Inr ex \<Rightarrow> Inr (add_connector (fst st) designator attribs, ex))
                  | None \<Rightarrow>
                      if designator \<in> fst ` set (cables (fst st)) then
                        (case check_type (snd st) designator template Cable of
                           Inl e \<Rightarrow> Inl e
                         | Inr ex \<Rightarrow> Inr (fst st, ex))
                      else
                        (case map_of template_cables template of
                           Some attribs \<Rightarrow>
                             (case check_type (snd st) designator template Cable of
                                Inl e \<Rightarrow> Inl e
                              | Inr ex \<Rightarrow> Inr (add_cable (fst st) designator attribs, ex))
                         | None \<Rightarrow> Inl (UnknownTemplateError template)))))"

fun gen_items ::
  "(string \<times> 'a) list \<Rightarrow> (string \<times> 'a) list \<Rightarrow> (string \<times> string) list
     \<Rightarrow> 'a harness \<times> kind option \<Rightarrow> item list \<Rightarrow> error + ('a harness \<times> kind option)" where
  "gen_items tc tcab dts st [] = Inr st"
| "gen_items tc tcab dts st (it # its) =
     (case gen_item tc tcab dts st it of
        Inl e \<Rightarrow> Inl e
      | Inr st1 \<Rightarrow> gen_items tc tcab dts st1 its)"

text \<open>
  What \<open>for item in entry\<close> runs over: the members of a list; the characters of a
  string and the keys of a mapping are strings, which have no \<open>keys\<close>.
\<close>

definition entry_items :: "'v entry \<Rightarrow> item list" where
  "entry_items entry =
     (case entry of
        EList its \<Rightarrow> its
      | EStr s \<Rightarrow> map (\<lambda>c. Tok [c]) s
      | EDict kvs \<Rightarrow> map (\<lambda>kv. Tok (fst kv)) kvs)"

text \<open>One entry, lines 269 to 297: its members, then \<open>alternate_type()\<close>.\<close>

definition gen_entry ::
  "(string \<times> 'a) list \<Rightarrow> (string \<times> 'a) list \<Rightarrow> (string \<times> string) list
     \<Rightarrow> 'a harness \<times> kind option \<Rightarrow> 'v entry \<Rightarrow> error + ('a harness \<times> kind option)" where
  "gen_entry tc tcab dts st entry =
     (case gen_items tc tcab dts st (entry_items entry) of
        Inl e \<Rightarrow> Inl e
      | Inr st1 \<Rightarrow>
          (case alternate_type (snd st1) of
             Inl e \<Rightarrow> Inl e
           | Inr ex \<Rightarrow> Inr (fst st1, ex)))"

fun gen_entries ::
  "(string \<times> 'a) list \<Rightarrow> (string \<times> 'a) list \<Rightarrow> (string \<times> string) list
     \<Rightarrow> 'a harness \<times> kind option \<Rightarrow> 'v entry list \<Rightarrow> error + ('a harness \<times> kind option)" where
  "gen_entries tc tcab dts st [] = Inr st"
| "gen_entries tc tcab dts st (entry # es) =
     (case gen_entry tc tcab dts st entry of
        Inl e \<Rightarrow> Inl e
      | Inr st1 \<Rightarrow> gen_entries tc tcab dts st1 es)"

text \<open>Lines 264 to 297: \<open>expected_type\<close> is reset, then every entry is processed.\<close>

definition generate_components ::
  "(string \<times> 'a) list \<Rightarrow> (string \<times> 'a) list \<Rightarrow> (string \<times> string) list
     \<Rightarrow> 'a harness \<Rightarrow> 'v entry list \<Rightarrow> error + 'a harness" where
  "generate_components tc tcab dts h cs =
     (case gen_entries tc tcab dts (h, None) cs of Inl e \<Rightarrow> Inl e | Inr st \<Rightarrow> Inr (fst st))"

section \<open>Connecting the components\<close>

text \<open>
  \<open>list(map(list, zip(*connection_set)))\<close>, line 302: \<open>zip\<close> stops at the shortest
  argument and yields nothing without arguments.
\<close>

fun min_len :: "'b list list \<Rightarrow> nat" where
  "min_len [] = 0"
| "min_len [r] = length r"
| "min_len (r # rs) = min (length r) (min_len rs)"

definition zip_star :: "'b list list \<Rightarrow> 'b list list" where
  "zip_star rows = map (\<lambda>j. map (\<lambda>r. r ! j) rows) [0..<min_len rows]"

text \<open>
  The members of every entry as the pairs \<open>(designator, pin)\<close> that
  \<open>list(item.keys())[0]\<close> and \<open>item[designator]\<close> read. After the components have been
  generated, every member is such a mapping.
\<close>

definition item_ref :: "item \<Rightarrow> error + (string \<times> pin)" where
  "item_ref it = (case it of Ref d p \<Rightarrow> Inr (d, p) | Tok s \<Rightarrow> Inl PyAttributeError)"

definition rows_of :: "'v entry list \<Rightarrow> error + (string \<times> pin) list list" where
  "rows_of cs = those_ok (map (\<lambda>entry. those_ok (map item_ref (entry_items entry))) cs)"

text \<open>
  The body of the inner loop, lines 307 to 327, at position \<open>index_item\<close> of the path
  \<open>entry\<close> (\<open>index_item < len(entry)\<close>).
\<close>

definition connect_item :: "'a harness \<Rightarrow> (string \<times> pin) list \<Rightarrow> nat \<Rightarrow> 'a harness" where
  "connect_item h entry index_item =
     (let designator = fst (entry ! index_item)
      in if designator \<in> fst ` set (cables h) then
           connect h
             (if index_item = 0 then None
              else Some (get_single_key_and_value (entry ! (index_item - 1))))
             (designator, snd (entry ! index_item))
             (if index_item = length entry - 1 then None
              else Some (get_single_key_and_value (entry ! (index_item + 1))))
         else h)"

definition connect_entry :: "'a harness \<Rightarrow> (string \<times> pin) list \<Rightarrow> 'a harness" where
  "connect_entry h entry = fold (\<lambda>index_item h'. connect_item h' entry index_item) [0..<length entry] h"

definition connect_components :: "'a harness \<Rightarrow> (string \<times> pin) list list \<Rightarrow> 'a harness" where
  "connect_components h paths = fold (\<lambda>entry h'. connect_entry h' entry) paths h"

section \<open>The build\<close>

text \<open>The body of the loop over the connection sets, lines 206 to 327.\<close>

definition process_set ::
  "string \<Rightarrow> char \<Rightarrow> ('v \<Rightarrow> pin list) \<Rightarrow> (string \<times> 'a) list \<Rightarrow> (string \<times> 'a) list
     \<Rightarrow> resolver \<times> 'a harness \<Rightarrow> 'v entry list
     \<Rightarrow> error + (resolver \<times> 'a harness \<times> 'v entry list)" where
  "process_set pfx sep expand tc tcab st connection_set =
     (case normalize_set pfx sep expand (fst st) connection_set of
        Inl e \<Rightarrow> Inl e
      | Inr (rs1, n, cs3) \<Rightarrow>
          (case generate_components tc tcab (designators_and_templates rs1) (snd st) cs3 of
             Inl e \<Rightarrow> Inl e
           | Inr h1 \<Rightarrow>
               (case rows_of cs3 of
                  Inl e \<Rightarrow> Inl e
                | Inr rows \<Rightarrow> Inr (rs1, connect_components h1 (zip_star rows), cs3))))"

text \<open>
  The state of one build: the resolver dictionaries, the harness, and the list
  \<open>yaml_data["connections"]\<close>. Line 151 binds \<open>connection_sets\<close> to that very list, and
  the loop variable \<open>connection_set\<close> is the list stored at its position \<open>i\<close>; the
  assignments \<open>connection_set[index] = ...\<close> of lines 233, 247, 254 and 258 therefore
  change the YAML tree. The transposition of line 302 rebinds the local variable only.
\<close>

record ('a, 'v) build =
  resolver_state :: resolver
  the_harness :: "'a harness"
  yaml_connections :: "'v entry list list"

fun process_sets ::
  "string \<Rightarrow> char \<Rightarrow> ('v \<Rightarrow> pin list) \<Rightarrow> (string \<times> 'a) list \<Rightarrow> (string \<times> 'a) list
     \<Rightarrow> ('a, 'v) build \<Rightarrow> nat \<Rightarrow> 'v entry list list \<Rightarrow> error + ('a, 'v) build" where
  "process_sets pfx sep expand tc tcab b i [] = Inr b"
| "process_sets pfx sep expand tc tcab b i (connection_set # rest) =
     (case process_set pfx sep expand tc tcab (resolver_state b, the_harness b) connection_set of
        Inl e \<Rightarrow> Inl e
      | Inr (rs1, h1, cs3) \<Rightarrow>
          process_sets pfx sep expand tc tcab
            \<lparr>resolver_state = rs1, the_harness = h1,
             yaml_connections = (yaml_connections b)[i := cs3]\<rparr> (Suc i) rest)"

text \<open>
  Modelled from the spec: \<open>Harness.populate_bom\<close> is not part of the sources at hand.
  The grouping key is the attribute bag of an instance without its designator; a row
  holds the key, the running quantity and the designators in order, and the rows are in
  the order in which their groups were first seen.
\<close>

fun bom_add :: "('a \<times> nat \<times> string list) list \<Rightarrow> string \<times> 'a \<Rightarrow> ('a \<times> nat \<times> string list) list" where
  "bom_add [] inst = [(snd inst, 1, [fst inst])]"
| "bom_add (row # rows) inst =
     (if fst row = snd inst then (fst row, fst (snd row) + 1, snd (snd row) @ [fst inst]) # rows
      else row # bom_add rows inst)"

definition populate_bom :: "'a harness \<Rightarrow> ('a \<times> nat \<times> string list) list" where
  "populate_bom h = fold (\<lambda>inst rows. bom_add rows inst) (connectors h @ cables h) []"

text \<open>
  \<open>parse\<close>, lines 84 to 339, for a YAML tree with the sections \<open>connectors\<close>,
  \<open>cables\<close> and \<open>connections\<close> (an absent section is created empty, lines 145 to 149)
  and without \<open>additional_bom_items\<close>. The templates are copied from the first two
  sections. The result is the final state with the bill of materials.
\<close>

definition parse ::
  "string \<Rightarrow> char \<Rightarrow> ('v \<Rightarrow> pin list) \<Rightarrow> (string \<times> 'a) list \<Rightarrow> (string \<times> 'a) list
     \<Rightarrow> 'v entry list list \<Rightarrow> error + (('a, 'v) build \<times> ('a \<times> nat \<times> string list) list)" where
  "parse pfx sep expand yaml_connectors yaml_cables connection_sets =
     (case process_sets pfx sep expand yaml_connectors yaml_cables
             \<lparr>resolver_state = empty_resolver, the_harness = empty_harness,
              yaml_connections = connection_sets\<rparr> 0 connection_sets of
        Inl e \<Rightarrow> Inl e
      | Inr b \<Rightarrow> Inr (b, populate_bom (the_harness b)))"

section \<open>Pin ranges\<close>

text \<open>
  Modelled from the spec: \<open>expand\<close> of \<open>wv_utils\<close> is not part of the sources at hand.
  The specification gives the range syntax \<open>"a-b,c"\<close>, which expands to the explicit
  integer sequence (\<open>"1-3,6"\<close> to \<open>[1,2,3,6]\<close>). A piece that is neither a number nor a
  range of two numbers is passed through as a string.
\<close>

fun split_on :: "char \<Rightarrow> string \<Rightarrow> string list" where
  "split_on c [] = [[]]"
| "split_on c (x # xs) =
     (if x = c then [] # split_on c xs
      else (case split_on c xs of [] \<Rightarrow> [[x]] | p # ps \<Rightarrow> (x # p) # ps))"

definition digit_val :: "char \<Rightarrow> nat option" where
  "digit_val c =
     map_of [(CHR ''0'', 0), (CHR ''1'', 1), (CHR ''2'', 2), (CHR ''3'', 3), (CHR ''4'', 4),
             (CHR ''5'', 5), (CHR ''6'', 6), (CHR ''7'', 7), (CHR ''8'', 8), (CHR ''9'', 9)] c"

fun parse_nat_acc :: "nat \<Rightarrow> string \<Rightarrow> nat option" where
  "parse_nat_acc acc [] = Some acc"
| "parse_nat_acc acc (c # cs) =
     (case digit_val c of None \<Rightarrow> None | Some d \<Rightarrow> parse_nat_acc (10 * acc + d) cs)"

definition parse_nat :: "string \<Rightarrow> nat option" where
  "parse_nat s = (if s = [] then None else parse_nat_acc 0 s)"

definition expand_piece :: "string \<Rightarrow> pin list" where
  "expand_piece p =
     (case split_on CHR ''-'' p of
        [a, b] \<Rightarrow>
          (case parse_nat a of
             None \<Rightarrow> [PStr p]
           | Some x \<Rightarrow>
               (case parse_nat b of
                  None \<Rightarrow> [PStr p]
                | Some y \<Rightarrow> map (\<lambda>k. PInt (int k)) [x..<Suc y]))
      | _ \<Rightarrow> (case parse_nat p of None \<Rightarrow> [PStr p] | Some x \<Rightarrow> [PInt (int x)]))"

definition expand_spec :: "string \<Rightarrow> pin list" where
  "expand_spec s = concat (map expand_piece (split_on CHR '','' s))"

section \<open>Notions used in the statements\<close>

text \<open>
  A normalised row of width \<open>n\<close>: a list of exactly \<open>n\<close> single-key mappings
  \<open>{designator: pin}\<close>.
\<close>

definition is_ref :: "item \<Rightarrow> bool" where
  "is_ref it = (case it of Ref d p \<Rightarrow> True | Tok s \<Rightarrow> False)"

definition is_row :: "nat \<Rightarrow> 'v entry \<Rightarrow> bool" where
  "is_row n entry = (case entry of EList its \<Rightarrow> length its = n \<and> list_all is_ref its | _ \<Rightarrow> False)"

text \<open>The token \<open>tok\<close> can resolve to the designator \<open>d\<close>, from some state of the dictionaries.\<close>

definition resolves_to :: "string \<Rightarrow> char \<Rightarrow> string \<Rightarrow> string \<Rightarrow> bool" where
  "resolves_to pfx sep tok d = (\<exists>rs rs1 t. resolve_designator pfx rs tok sep = Inr (rs1, t, d))"

text \<open>
  The type of the instance that a designator names in a harness, as the loop of lines
  274 to 290 reads it: the connectors are looked up first.
\<close>

definition kind_of :: "'a harness \<Rightarrow> string \<Rightarrow> kind option" where
  "kind_of h designator =
     (if designator \<in> fst ` set (connectors h) then Some Connector
      else if designator \<in> fst ` set (cables h) then Some Cable
      else None)"

text \<open>The type expected at chain position \<open>i\<close> when position 0 has the type \<open>k\<close>.\<close>

definition other_kind :: "kind \<Rightarrow> kind" where
  "other_kind k = (case k of Connector \<Rightarrow> Cable | Cable \<Rightarrow> Connector)"

definition kind_at :: "kind \<Rightarrow> nat \<Rightarrow> kind" where
  "kind_at k i = (if even i then k else other_kind k)"

text \<open>
  The positions of a path that hold a cable of the harness, and the connection record
  for a position: no endpoint before the first position, none after the last.
\<close>

definition cable_positions :: "'a harness \<Rightarrow> (string \<times> pin) list \<Rightarrow> nat list" where
  "cable_positions h entry = filter (\<lambda>j. fst (entry ! j) \<in> fst ` set (cables h)) [0..<length entry]"

definition connection_at :: "(string \<times> pin) list \<Rightarrow> nat \<Rightarrow> connection" where
  "connection_at entry j =
     Connection (if j = 0 then None else Some (entry ! (j - 1)))
                (entry ! j)
                (if Suc j = length entry then None else Some (entry ! Suc j))"

text \<open>
  The row \<open>r\<close> that an entry \<open>e\<close> of the input becomes, for the count \<open>n\<close>: a string
  gives \<open>n\<close> records on pin 1, one for each resolution of the string; a list gives one
  record on pin 1 for each of its tokens; a mapping gives one record for each pin of the
  expanded pin list of its first key, on the designator that the key resolves to.
\<close>

definition normal_row ::
  "string \<Rightarrow> char \<Rightarrow> ('v \<Rightarrow> pin list) \<Rightarrow> nat \<Rightarrow> 'v entry \<Rightarrow> 'v entry \<Rightarrow> bool" where
  "normal_row pfx sep expand n e r =
     (case e of
        EStr s \<Rightarrow>
          (\<exists>ds. length ds = n \<and> list_all (resolves_to pfx sep s) ds
                \<and> r = EList (map (\<lambda>d. Ref d (PInt 1)) ds))
      | EList its \<Rightarrow>
          (\<exists>toks ds. its = map Tok toks \<and> list_all2 (resolves_to pfx sep) toks ds
                \<and> r = EList (map (\<lambda>d. Ref d (PInt 1)) ds))
      | EDict kvs \<Rightarrow>
          (\<exists>k v rest d. kvs = (k, v) # rest \<and> resolves_to pfx sep k d
                \<and> r = EList (map (Ref d) (expand v))))"

text \<open>The same for an entry after the strings have been expanded; a string stays.\<close>

definition resolved_row ::
  "string \<Rightarrow> char \<Rightarrow> ('v \<Rightarrow> pin list) \<Rightarrow> 'v entry \<Rightarrow> 'v entry \<Rightarrow> bool" where
  "resolved_row pfx sep expand e r =
     (case e of
        EStr s \<Rightarrow> r = EStr s
      | EList its \<Rightarrow>
          (\<exists>toks ds. its = map Tok toks \<and> list_all2 (resolves_to pfx sep) toks ds
                \<and> r = EList (map (\<lambda>d. Ref d (PInt 1)) ds))
      | EDict kvs \<Rightarrow>
          (\<exists>k v rest d. kvs = (k, v) # rest \<and> resolves_to pfx sep k d
                \<and> r = EList (map (Ref d) (expand v))))"

text \<open>
  The type that the loop of lines 274 to 294 finds for a designator bound to
  \<open>template\<close>, in the order of its branches; \<open>None\<close> is the unknown template.
\<close>

definition actual_type ::
  "(string \<times> 'a) list \<Rightarrow> (string \<times> 'a) list \<Rightarrow> 'a harness \<Rightarrow> string \<Rightarrow> string \<Rightarrow> kind option" where
  "actual_type tc tcab h template designator =
     (if designator \<in> fst ` set (connectors h) then Some Connector
      else if map_of tc template \<noteq> None then Some Connector
      else if designator \<in> fst ` set (cables h) then Some Cable
      else if map_of tcab template \<noteq> None then Some Cable
      else None)"

text \<open>
  A designator whose type in the harness cannot change any more while the components of
  a connection set are generated: a connector, or a cable whose template is not a
  connector template.
\<close>

definition settled ::
  "(string \<times> 'a) list \<Rightarrow> (string \<times> string) list \<Rightarrow> 'a harness \<Rightarrow> string \<Rightarrow> kind \<Rightarrow> bool" where
  "settled tc dts h d k =
     (kind_of h d = Some k
      \<and> (k = Connector \<or> (case map_of dts d of None \<Rightarrow> True | Some t \<Rightarrow> map_of tc t = None)))"

text \<open>
  The tokens that the loops of lines 236 to 249 pass to \<open>resolve_designator\<close>, in
  order: for a connection set with the count \<open>n\<close> (the strings have been expanded), and
  for all the connection sets of a build.
\<close>

definition item_tokens :: "item list \<Rightarrow> string list" where
  "item_tokens its = concat (map (\<lambda>it. case it of Tok s \<Rightarrow> [s] | Ref d p \<Rightarrow> []) its)"

definition entry_tokens :: "'v entry \<Rightarrow> string list" where
  "entry_tokens e =
     (case e of
        EList its \<Rightarrow> item_tokens its
      | EDict kvs \<Rightarrow> (case kvs of [] \<Rightarrow> [] | kv # _ \<Rightarrow> [fst kv])
      | EStr s \<Rightarrow> [])"

definition set_tokens :: "nat \<Rightarrow> 'v entry list \<Rightarrow> string list" where
  "set_tokens n cs = concat (map entry_tokens (expand_strings n cs))"

definition build_tokens :: "('v \<Rightarrow> pin list) \<Rightarrow> 'v entry list list \<Rightarrow> string list" where
  "build_tokens expand sets =
     concat (map (\<lambda>cs. case determine_count expand cs of Inl e \<Rightarrow> [] | Inr n \<Rightarrow> set_tokens n cs) sets)"

text \<open>
  The designators that the build wrote for these tokens, read back from the normalised
  connection sets: one for every record of a row that came from a list or a string, and
  one for a row that came from a mapping (all its records carry the designator of the
  one key).
\<close>

definition item_name :: "item \<Rightarrow> string" where
  "item_name it = (case it of Tok s \<Rightarrow> s | Ref d p \<Rightarrow> d)"

definition row_designators :: "'v entry \<Rightarrow> 'v entry \<Rightarrow> string list" where
  "row_designators e r =
     (case e of
        EDict kvs \<Rightarrow> take 1 (map item_name (entry_items r))
      | _ \<Rightarrow> map item_name (entry_items r))"

definition set_designators :: "'v entry list \<Rightarrow> 'v entry list \<Rightarrow> string list" where
  "set_designators cs cs3 = concat (map2 row_designators cs cs3)"

definition build_designators :: "'v entry list list \<Rightarrow> 'v entry list list \<Rightarrow> string list" where
  "build_designators sets sets3 = concat (map2 set_designators sets sets3)"

text \<open>
  The parallel path \<open>j\<close> of a matrix of rows, as the transposition of line 302 builds
  it: its position \<open>i\<close> holds the record \<open>j\<close> of the row \<open>i\<close>.
\<close>

definition path_of :: "'b list list \<Rightarrow> nat \<Rightarrow> 'b list" where
  "path_of rows j = map (\<lambda>r. r ! j) rows"
section \<open>Properties of the designator resolution\<close>

lemma split_token:
  assumes "sep \<in> set inp"
  shows "inp = takeWhile (\<lambda>c. c \<noteq> sep) inp @ sep # tl (dropWhile (\<lambda>c. c \<noteq> sep) inp)"
proof -
  have "dropWhile (\<lambda>c. c \<noteq> sep) inp \<noteq> []" using assms by (simp add: dropWhile_eq_Nil_conv)
  moreover have "hd (dropWhile (\<lambda>c. c \<noteq> sep) inp) = sep"
    using assms hd_dropWhile[of "\<lambda>c. c \<noteq> sep" inp] calculation by auto
  ultimately have "dropWhile (\<lambda>c. c \<noteq> sep) inp = sep # tl (dropWhile (\<lambda>c. c \<noteq> sep) inp)"
    by (metis list.collapse)
  then show ?thesis by (metis takeWhile_dropWhile_id)
qed

lemma takeWhile_token: "sep \<notin> set t \<Longrightarrow> takeWhile (\<lambda>c. c \<noteq> sep) (t @ sep # d) = t"
  by (induction t) auto

lemma dropWhile_token: "sep \<notin> set t \<Longrightarrow> dropWhile (\<lambda>c. c \<noteq> sep) (t @ sep # d) = sep # d"
  by (induction t) auto

lemma count_list_0: "count_list xs x = 0 \<longleftrightarrow> x \<notin> set xs"
  by (induction xs) auto

lemma count_token: "count_list (t @ sep # d) sep \<le> 1 \<longleftrightarrow> sep \<notin> set t \<and> sep \<notin> set d"
  by (auto simp: count_list_0)

lemma suffix_last:
  assumes "sep \<in> set inp" "count_list inp sep \<le> 1"
  shows "tl (dropWhile (\<lambda>c. c \<noteq> sep) inp) = [] \<longleftrightarrow> last inp = sep"
proof -
  let ?t = "takeWhile (\<lambda>c. c \<noteq> sep) inp" and ?d = "tl (dropWhile (\<lambda>c. c \<noteq> sep) inp)"
  have eq: "inp = ?t @ sep # ?d" using split_token[OF assms(1)] .
  then have "count_list (?t @ sep # ?d) sep \<le> 1" using assms(2) by simp
  with count_token[of ?t sep ?d] have nd: "sep \<notin> set ?d" by blast
  show ?thesis
  proof
    assume "?d = []" then show "last inp = sep" using eq by (metis last_snoc)
  next
    assume l: "last inp = sep"
    show "?d = []"
    proof (rule ccontr)
      assume "?d \<noteq> []"
      then have "last inp = last ?d" using eq by (metis last_appendR last_ConsR list.distinct(1))
      then show False using l nd \<open>?d \<noteq> []\<close> last_in_set by metis
    qed
  qed
qed

lemma resolve_idem:
  assumes "resolve_designator pfx rs inp sep = Inr (rs1, r)"
    and "inp = [] \<or> last inp \<noteq> sep"
  shows "resolve_designator pfx rs1 inp sep = Inr (rs1, r)"
proof (cases "sep \<in> set inp")
  case False
  with assms(1) show ?thesis
    by (auto simp: resolve_designator_def AList.update_conv' split: option.splits)
next
  case True
  from assms(1) True have c: "count_list inp sep \<le> 1"
    by (auto simp: resolve_designator_def split: if_splits)
  from True assms(2) have "last inp \<noteq> sep" by auto
  with suffix_last[OF True c] have ne: "tl (dropWhile (\<lambda>c. c \<noteq> sep) inp) \<noteq> []" by simp
  with assms(1) True c show ?thesis
    by (auto simp: resolve_designator_def Let_def AList.update_conv' split: option.splits if_splits)
qed

lemma resolve_keeps:
  assumes "resolve_designator pfx rs inp sep = Inr (rs1, r)"
    and "map_of (designators_and_templates rs) d = Some t"
  shows "map_of (designators_and_templates rs1) d = Some t"
  using assms
  by (auto simp: resolve_designator_def Let_def AList.update_conv' split: option.splits if_splits)

lemma resolve_all_keeps:
  "resolve_all pfx sep rs toks = Inr (rs1, outs) \<Longrightarrow>
   map_of (designators_and_templates rs) d = Some t \<Longrightarrow>
   map_of (designators_and_templates rs1) d = Some t"
proof (induction toks arbitrary: rs outs)
  case Nil then show ?case by simp
next
  case (Cons tok toks)
  then show ?case
    by (auto split: sum.splits prod.splits dest: resolve_keeps)
qed

lemma resolve_conflict:
  assumes "map_of (designators_and_templates rs) d = Some t"
    and "sep \<notin> set t'" "sep \<notin> set d" "d \<noteq> []" "t' \<noteq> t"
  shows "resolve_designator pfx rs (t' @ sep # d) sep = Inl (DesignatorConflictError d t t')"
  using assms
  by (simp add: resolve_designator_def Let_def takeWhile_token dropWhile_token count_list_0)

lemma resolve_conflict_auto:
  assumes "map_of (designators_and_templates rs) (auto_name pfx t' (get0 (autogenerated_designators rs) t' + 1)) = Some t"
    and "sep \<notin> set t'" "t' \<noteq> t"
  shows "resolve_designator pfx rs (t' @ [sep]) sep
       = Inl (DesignatorConflictError (auto_name pfx t' (get0 (autogenerated_designators rs) t' + 1)) t t')"
  using assms
  by (simp add: resolve_designator_def Let_def takeWhile_token dropWhile_token count_list_0 get0_def AList.update_conv')

lemma digit_char_inj: "a < 10 \<Longrightarrow> b < 10 \<Longrightarrow> digit_char a = digit_char b \<Longrightarrow> a = b"
proof -
  assume a: "a < 10" and b: "b < 10" and e: "digit_char a = digit_char b"
  have d: "distinct ''0123456789''" by simp
  have "length ''0123456789'' = 10" by simp
  with a b e d show "a = b" unfolding digit_char_def
    by (metis nth_eq_iff_index_eq)
qed

lemma str_nat_nonempty: "str_nat n \<noteq> []"
  by (subst str_nat.simps) simp

lemma str_nat_length: "\<not> n < 10 \<Longrightarrow> 2 \<le> length (str_nat n)"
proof -
  assume "\<not> n < 10"
  then have "str_nat n = str_nat (n div 10) @ [digit_char (n mod 10)]" by (subst str_nat.simps) simp
  moreover have "1 \<le> length (str_nat (n div 10))" using str_nat_nonempty[of "n div 10"]
    by (cases "str_nat (n div 10)") auto
  ultimately show ?thesis by simp
qed

lemma str_nat_inj: "str_nat n = str_nat m \<Longrightarrow> n = m"
proof (induction n arbitrary: m rule: str_nat.induct)
  case (1 n)
  show ?case
  proof (cases "n < 10")
    case True
    then have sn: "str_nat n = [digit_char n]" by (subst str_nat.simps) simp
    show ?thesis
    proof (cases "m < 10")
      case mt: True
      then have "str_nat m = [digit_char m]" by (subst str_nat.simps) simp
      with sn "1.prems" have "digit_char n = digit_char m" by simp
      with True mt show ?thesis by (rule digit_char_inj)
    next
      case False
      from str_nat_length[OF False] sn "1.prems" show ?thesis by simp
    qed
  next
    case False
    then have sn: "str_nat n = str_nat (n div 10) @ [digit_char (n mod 10)]" by (subst str_nat.simps) simp
    show ?thesis
    proof (cases "m < 10")
      case True
      then have "str_nat m = [digit_char m]" by (subst str_nat.simps) simp
      with str_nat_length[OF False] "1.prems" show ?thesis by simp
    next
      case mf: False
      then have sm: "str_nat m = str_nat (m div 10) @ [digit_char (m mod 10)]" by (subst str_nat.simps) simp
      from sn sm "1.prems" have e1: "str_nat (n div 10) = str_nat (m div 10)"
        and e2: "digit_char (n mod 10) = digit_char (m mod 10)" by simp_all
      from "1.IH"[OF False e1] have d: "n div 10 = m div 10" .
      have "n mod 10 = m mod 10" by (rule digit_char_inj[OF _ _ e2]) simp_all
      with d show ?thesis by (metis div_mult_mod_eq)
    qed
  qed
qed

lemma auto_name_inj: "auto_name pfx T k = auto_name pfx T l \<Longrightarrow> k = l"
  by (simp add: auto_name_def str_nat_inj)

lemma auto_name_prefix: "prefix pfx (auto_name pfx T k)"
  by (simp add: auto_name_def)

lemma distinct_auto_names: "distinct (map (auto_name pfx T) [1..<Suc m])"
  by (simp add: distinct_map inj_on_def auto_name_inj)

lemma auto_token:
  assumes "sep \<in> set inp" "tl (dropWhile (\<lambda>c. c \<noteq> sep) inp) = []"
  shows "inp = takeWhile (\<lambda>c. c \<noteq> sep) inp @ [sep]"
  using split_token[OF assms(1)] assms(2) by simp

lemma get0_update: "get0 (AList.update k v al) k' = (if k' = k then v else get0 al k')"
  by (simp add: get0_def AList.update_conv')

lemma resolve_auto_eq:
  assumes "sep \<notin> set T"
  shows "resolve_designator pfx rs (T @ [sep]) sep =
     (let k = Suc (get0 (autogenerated_designators rs) T);
          rs1 = rs\<lparr>autogenerated_designators := AList.update T k (autogenerated_designators rs)\<rparr>
      in case map_of (designators_and_templates rs) (auto_name pfx T k) of
           Some t \<Rightarrow> if t \<noteq> T then Inl (DesignatorConflictError (auto_name pfx T k) t T)
                     else Inr (rs1, T, auto_name pfx T k)
         | None \<Rightarrow> Inr (rs1\<lparr>designators_and_templates :=
                         AList.update (auto_name pfx T k) T (designators_and_templates rs)\<rparr>,
                       T, auto_name pfx T k))"
  using assms
  by (simp add: resolve_designator_def Let_def takeWhile_token dropWhile_token count_list_0 get0_update
        cong: option.case_cong if_cong)

lemma resolve_auto_step:
  assumes "resolve_designator pfx rs (T @ [sep]) sep = Inr (rs1, r)"
  shows "r = (T, auto_name pfx T (Suc (get0 (autogenerated_designators rs) T)))
       \<and> get0 (autogenerated_designators rs1) T = Suc (get0 (autogenerated_designators rs) T)"
proof -
  from assms have "count_list (T @ [sep]) sep \<le> 1"
    by (simp add: resolve_designator_def split: if_splits)
  with count_token[of T sep "[]"] have ns: "sep \<notin> set T" by simp
  show ?thesis
    using assms unfolding resolve_auto_eq[OF ns] Let_def
    by (cases "map_of (designators_and_templates rs)
                 (auto_name pfx T (Suc (get0 (autogenerated_designators rs) T)))")
       (auto simp: get0_update split: if_splits)
qed

lemma resolve_autogen_cases:
  assumes "resolve_designator pfx rs inp sep = Inr (rs1, r)"
  shows "autogenerated_designators rs1 = autogenerated_designators rs
       \<or> (\<exists>T. sep \<notin> set T \<and> inp = T @ [sep])"
proof (cases "sep \<in> set inp")
  case False
  with assms show ?thesis
    by (cases "map_of (designators_and_templates rs) inp") (auto simp: resolve_designator_def)
next
  case True
  from assms True have c: "count_list inp sep \<le> 1"
    by (simp add: resolve_designator_def split: if_splits)
  let ?T = "takeWhile (\<lambda>c. c \<noteq> sep) inp" and ?d = "tl (dropWhile (\<lambda>c. c \<noteq> sep) inp)"
  show ?thesis
  proof (cases "?d = []")
    case dn: True
    have "inp = ?T @ [sep]" using auto_token[OF True dn] .
    moreover have "sep \<notin> set ?T" by (metis (mono_tags, lifting) set_takeWhileD)
    ultimately show ?thesis by blast
  next
    case dn: False
    have "autogenerated_designators rs1 = autogenerated_designators rs"
      using assms True c dn
      by (cases "map_of (designators_and_templates rs) ?d")
         (auto simp: resolve_designator_def Let_def split: if_splits)
    then show ?thesis ..
  qed
qed

lemma resolve_other_step:
  assumes "resolve_designator pfx rs inp sep = Inr (rs1, r)" "inp \<noteq> T @ [sep]"
  shows "get0 (autogenerated_designators rs1) T = get0 (autogenerated_designators rs) T"
proof -
  from resolve_autogen_cases[OF assms(1)]
  consider "autogenerated_designators rs1 = autogenerated_designators rs"
    | T' where "sep \<notin> set T'" "inp = T' @ [sep]" by blast
  then show ?thesis
  proof cases
    case 1 then show ?thesis by simp
  next
    case 2
    with assms(2) have ne: "T \<noteq> T'" by auto
    from assms(1) have r: "resolve_designator pfx rs (T' @ [sep]) sep = Inr (rs1, r)"
      using 2 by simp
    show ?thesis
      using r ne unfolding resolve_auto_eq[OF 2(1)] Let_def
      by (cases "map_of (designators_and_templates rs)
                 (auto_name pfx T' (Suc (get0 (autogenerated_designators rs) T')))")
         (auto simp: get0_update split: if_splits)
  qed
qed

lemma resolve_all_length: "resolve_all pfx sep rs toks = Inr (rs1, outs) \<Longrightarrow> length outs = length toks"
  by (induction toks arbitrary: rs outs) (auto split: sum.splits prod.splits)

lemma resolve_all_auto:
  "resolve_all pfx sep rs toks = Inr (rs1, outs) \<Longrightarrow>
     map snd (filter (\<lambda>p. fst p = T @ [sep]) (zip toks outs))
       = map (\<lambda>k. (T, auto_name pfx T k))
           [Suc (get0 (autogenerated_designators rs) T) ..<
            Suc (get0 (autogenerated_designators rs) T + count_list toks (T @ [sep]))]
   \<and> get0 (autogenerated_designators rs1) T
       = get0 (autogenerated_designators rs) T + count_list toks (T @ [sep])"
proof (induction toks arbitrary: rs outs)
  case Nil
  then show ?case by simp
next
  case (Cons tok toks)
  from Cons.prems obtain rsm r outs' where
    step: "resolve_designator pfx rs tok sep = Inr (rsm, r)"
    and rest: "resolve_all pfx sep rsm toks = Inr (rs1, outs')"
    and outs: "outs = r # outs'"
    by (auto split: sum.splits prod.splits)
  note IH = Cons.IH[OF rest]
  show ?case
  proof (cases "tok = T @ [sep]")
    case True
    from resolve_auto_step[OF step[unfolded True]]
    have r: "r = (T, auto_name pfx T (Suc (get0 (autogenerated_designators rs) T)))"
      and g: "get0 (autogenerated_designators rsm) T = Suc (get0 (autogenerated_designators rs) T)"
      by simp_all
    let ?c = "get0 (autogenerated_designators rs) T" and ?n = "count_list toks (T @ [sep])"
    have u: "[Suc ?c..<Suc (?c + Suc ?n)] = Suc ?c # [Suc (Suc ?c)..<Suc (Suc ?c + ?n)]"
      by (simp add: upt_conv_Cons del: upt_Suc)
    have cnt: "count_list (tok # toks) (T @ [sep]) = Suc ?n" using True by simp
    have flt: "map snd (filter (\<lambda>p. fst p = T @ [sep]) (zip (tok # toks) outs))
           = r # map snd (filter (\<lambda>p. fst p = T @ [sep]) (zip toks outs'))"
      using True outs by simp
    show ?thesis unfolding cnt flt u using IH r g by simp
  next
    case False
    from resolve_other_step[OF step False]
    have g: "get0 (autogenerated_designators rsm) T = get0 (autogenerated_designators rs) T" .
    show ?thesis using IH False outs g by simp
  qed
qed

lemma autogenerated_collision:
  assumes "sep \<notin> set T" "sep \<notin> set (auto_name pfx T (Suc 0))"
  shows "resolve_all pfx sep empty_resolver [T @ sep # auto_name pfx T (Suc 0), T @ [sep]]
     = Inr (\<lparr>designators_and_templates = [(auto_name pfx T (Suc 0), T)],
             autogenerated_designators = [(T, Suc 0)]\<rparr>,
            [(T, auto_name pfx T (Suc 0)), (T, auto_name pfx T (Suc 0))])"
proof -
  have ne: "auto_name pfx T (Suc 0) \<noteq> []" by (simp add: auto_name_def)
  have first: "resolve_designator pfx empty_resolver (T @ sep # auto_name pfx T (Suc 0)) sep
     = Inr (\<lparr>designators_and_templates = [(auto_name pfx T (Suc 0), T)],
             autogenerated_designators = []\<rparr>, T, auto_name pfx T (Suc 0))"
    using assms ne
    by (simp add: resolve_designator_def Let_def takeWhile_token dropWhile_token count_list_0
          empty_resolver_def)
  have second: "resolve_designator pfx
        \<lparr>designators_and_templates = [(auto_name pfx T (Suc 0), T)],
         autogenerated_designators = []\<rparr> (T @ [sep]) sep
     = Inr (\<lparr>designators_and_templates = [(auto_name pfx T (Suc 0), T)],
             autogenerated_designators = [(T, Suc 0)]\<rparr>, T, auto_name pfx T (Suc 0))"
    unfolding resolve_auto_eq[OF assms(1)] by (simp add: Let_def get0_def)
  show ?thesis by (simp add: first second)
qed
section \<open>Claims about the designator resolution\<close>

text \<open>
  A token with an empty suffix is not resolved idempotently: resolving \<open>"CAB1:"\<close>
  twice gives \<open>__CAB1_1\<close>, then \<open>__CAB1_2\<close>, and the counter of \<open>CAB1\<close> goes from
  1 to 2 (here with the prefix \<open>__\<close> and the separator \<open>:\<close>).
\<close>

theorem resolve_twice_autogenerated_counterexample:
  "resolve_designator ''__'' empty_resolver ''CAB1:'' CHR '':''
     = Inr (\<lparr>designators_and_templates = [(''__CAB1_1'', ''CAB1'')],
             autogenerated_designators = [(''CAB1'', 1)]\<rparr>, ''CAB1'', ''__CAB1_1'')
   \<and> resolve_designator ''__''
        \<lparr>designators_and_templates = [(''__CAB1_1'', ''CAB1'')],
         autogenerated_designators = [(''CAB1'', 1)]\<rparr> ''CAB1:'' CHR '':''
     = Inr (\<lparr>designators_and_templates = [(''__CAB1_1'', ''CAB1''), (''__CAB1_2'', ''CAB1'')],
             autogenerated_designators = [(''CAB1'', 2)]\<rparr>, ''CAB1'', ''__CAB1_2'')"
  by (simp add: resolve_designator_def empty_resolver_def Let_def get0_def auto_name_def
        str_nat.simps digit_char_def)

text \<open>
  Claim C4, amended. For every token that does not end with the separator (it has no
  separator, or a designator after it), a second resolution right after a successful
  first one returns the same pair \<open>(template, designator)\<close> and leaves both
  dictionaries as they are; no counter is incremented.
\<close>

theorem resolve_twice_idempotent:
  assumes "resolve_designator pfx rs inp sep = Inr (rs1, r)"
    and "inp = [] \<or> last inp \<noteq> sep"
  shows "resolve_designator pfx rs1 inp sep = Inr (rs1, r)"
  using assms by (rule resolve_idem)

theorem resolve_twice_idempotent_witness:
  "resolve_designator ''__'' empty_resolver ''DB9:P1'' CHR '':''
     = Inr (\<lparr>designators_and_templates = [(''P1'', ''DB9'')], autogenerated_designators = []\<rparr>,
            ''DB9'', ''P1'')
   \<and> (''DB9:P1'' = [] \<or> last ''DB9:P1'' \<noteq> CHR '':'')
   \<and> resolve_designator ''__''
        \<lparr>designators_and_templates = [(''P1'', ''DB9'')], autogenerated_designators = []\<rparr>
        ''DB9:P1'' CHR '':''
     = Inr (\<lparr>designators_and_templates = [(''P1'', ''DB9'')], autogenerated_designators = []\<rparr>,
            ''DB9'', ''P1'')"
proof -
  have h1: "resolve_designator ''__'' empty_resolver ''DB9:P1'' CHR '':''
     = Inr (\<lparr>designators_and_templates = [(''P1'', ''DB9'')], autogenerated_designators = []\<rparr>,
            ''DB9'', ''P1'')"
    by (simp add: resolve_designator_def empty_resolver_def Let_def)
  have h2: "''DB9:P1'' = [] \<or> last ''DB9:P1'' \<noteq> CHR '':''" by simp
  from resolve_twice_idempotent[OF h1 h2] h1 h2 show ?thesis by blast
qed


section \<open>Properties of the connection count\<close>

lemma remdups_gt1: "Suc 0 < length (remdups cc) \<longleftrightarrow> (\<exists>a\<in>set cc. \<exists>b\<in>set cc. a \<noteq> b)"
proof -
  have "Suc 0 < length (remdups cc) \<longleftrightarrow> \<not> card (set cc) \<le> Suc 0"
    by (simp add: length_remdups_card_conv not_le)
  also have "\<dots> \<longleftrightarrow> \<not> (\<forall>a\<in>set cc. \<forall>b\<in>set cc. a = b)"
    by (simp only: card_le_Suc0_iff_eq[OF finite_set])
  finally show ?thesis by blast
qed

lemma determine_count_eq:
  assumes "connectioncount expand cs = Inr cc"
  shows "determine_count expand cs =
     (if \<forall>c\<in>set cc. c = 0 then Inl MissingConnectionCountError
      else if \<exists>a\<in>set cc. \<exists>b\<in>set cc. a \<noteq> b then Inl ConnectionCountMismatchError
      else Inr (hd cc))"
proof -
  have a: "list_ex (\<lambda>c. c \<noteq> 0) cc \<longleftrightarrow> \<not> (\<forall>c\<in>set cc. c = 0)" by (simp add: list_ex_iff)
  have b: "1 < length (remdups cc) \<longleftrightarrow> (\<exists>a\<in>set cc. \<exists>b\<in>set cc. a \<noteq> b)"
    using remdups_gt1[of cc] by simp
  have c: "\<not> (\<forall>c\<in>set cc. c = 0) \<Longrightarrow>
           (case cc of [] \<Rightarrow> Inl PyIndexError | c # _ \<Rightarrow> Inr c) = (Inr (hd cc) :: error + nat)"
    by (cases cc) simp_all
  show ?thesis
    unfolding determine_count_def assms sum.case a b using c by simp
qed

lemma determine_count_missing:
  assumes "connectioncount expand cs = Inr cc"
  shows "determine_count expand cs = Inl MissingConnectionCountError \<longleftrightarrow> (\<forall>c\<in>set cc. c = 0)"
proof (cases "\<forall>c\<in>set cc. c = 0")
  case True
  then show ?thesis unfolding determine_count_eq[OF assms] by simp
next
  case False
  then show ?thesis unfolding determine_count_eq[OF assms] by simp
qed

lemma determine_count_mismatch:
  assumes "connectioncount expand cs = Inr cc"
  shows "determine_count expand cs = Inl ConnectionCountMismatchError
      \<longleftrightarrow> (\<exists>a\<in>set cc. \<exists>b\<in>set cc. a \<noteq> b)"
proof (cases "\<forall>c\<in>set cc. c = 0")
  case True
  then have "\<not> (\<exists>a\<in>set cc. \<exists>b\<in>set cc. a \<noteq> b)" by metis
  with True show ?thesis unfolding determine_count_eq[OF assms] by simp
next
  case False
  show ?thesis
  proof (cases "\<exists>a\<in>set cc. \<exists>b\<in>set cc. a \<noteq> b")
    case True
    with False show ?thesis unfolding determine_count_eq[OF assms] by simp
  next
    case f2: False
    with False show ?thesis unfolding determine_count_eq[OF assms] by simp
  qed
qed

lemma determine_count_agreed:
  assumes "connectioncount expand cs = Inr cc"
  shows "determine_count expand cs = Inr n \<longleftrightarrow> n \<noteq> 0 \<and> cc \<noteq> [] \<and> (\<forall>c\<in>set cc. c = n)"
proof
  assume d: "determine_count expand cs = Inr n"
  then have nz: "\<not> (\<forall>c\<in>set cc. c = 0)" and ag: "\<not> (\<exists>a\<in>set cc. \<exists>b\<in>set cc. a \<noteq> b)"
    and n: "n = hd cc"
    unfolding determine_count_eq[OF assms] by (simp_all split: if_splits)
  from nz have ne: "cc \<noteq> []" by auto
  then have "hd cc \<in> set cc" by simp
  with ag n have all: "\<forall>c\<in>set cc. c = n" by metis
  with nz have "n \<noteq> 0" by metis
  with ne all show "n \<noteq> 0 \<and> cc \<noteq> [] \<and> (\<forall>c\<in>set cc. c = n)" by simp
next
  assume r: "n \<noteq> 0 \<and> cc \<noteq> [] \<and> (\<forall>c\<in>set cc. c = n)"
  then have "hd cc \<in> set cc" by simp
  with r have h: "hd cc = n" by metis
  from r \<open>hd cc \<in> set cc\<close> have nz: "\<not> (\<forall>c\<in>set cc. c = 0)" by metis
  from r have ag: "\<not> (\<exists>a\<in>set cc. \<exists>b\<in>set cc. a \<noteq> b)" by metis
  show "determine_count expand cs = Inr n"
    unfolding determine_count_eq[OF assms] using nz ag h by simp
qed

lemma expand_spec_1_3: "expand_spec ''1-3'' = [PInt 1, PInt 2, PInt 3]"
  by (simp add: expand_spec_def expand_piece_def parse_nat_def digit_val_def upt_conv_Cons)

lemma expand_spec_1_4: "expand_spec ''1-4'' = [PInt 1, PInt 2, PInt 3, PInt 4]"
  by (simp add: expand_spec_def expand_piece_def parse_nat_def digit_val_def upt_conv_Cons)


lemma normalize_missing:
  "determine_count expand cs = Inl e \<Longrightarrow> normalize_set pfx sep expand rs cs = Inl e"
  by (simp add: normalize_set_def)

lemma process_set_missing:
  "determine_count expand cs = Inl e \<Longrightarrow> process_set pfx sep expand tc tcab st cs = Inl e"
  by (simp add: process_set_def normalize_missing)


section \<open>Claims about the connection count\<close>

text \<open>
  An entry can yield a candidate and the set still fail for a missing count: the empty
  list yields the candidate 0.
\<close>

theorem empty_list_candidate_counterexample:
  "connectioncount expand_spec [EList []] = Inr [0]
   \<and> determine_count expand_spec [EList []] = Inl MissingConnectionCountError"
  by (simp add: determine_count_def)

text \<open>
  Claim C3, amended. A string yields no candidate, a list its length, a single-key
  mapping the length of its expanded pin list. With the candidates \<open>cc\<close> of a set, the
  count fails with \<open>MissingConnectionCountError\<close> exactly when no candidate is different
  from 0 (there is none, or all are 0), with \<open>ConnectionCountMismatchError\<close> exactly
  when two candidates differ, and it is the agreed count \<open>n\<close> exactly when there is a
  candidate, all are \<open>n\<close>, and \<open>n\<close> is not 0. The set
  \<open>[{"X1": "1-4"}, {"X2": "1-3"}]\<close> fails with \<open>ConnectionCountMismatchError\<close>.
\<close>

theorem determine_count_cases:
  "connectioncount expand [EStr s] = Inr []
   \<and> connectioncount expand [EList xs] = Inr [length xs]
   \<and> connectioncount expand [EDict [(k, v)]] = Inr [length (expand v)]
   \<and> (connectioncount expand cs = Inr cc \<longrightarrow>
        (determine_count expand cs = Inl MissingConnectionCountError \<longleftrightarrow> (\<forall>c\<in>set cc. c = 0))
      \<and> (determine_count expand cs = Inl ConnectionCountMismatchError
            \<longleftrightarrow> (\<exists>a\<in>set cc. \<exists>b\<in>set cc. a \<noteq> b))
      \<and> (determine_count expand cs = Inr n \<longleftrightarrow> n \<noteq> 0 \<and> cc \<noteq> [] \<and> (\<forall>c\<in>set cc. c = n)))
   \<and> determine_count expand_spec [EDict [(''X1'', ''1-4'')], EDict [(''X2'', ''1-3'')]]
        = Inl ConnectionCountMismatchError"
proof -
  have "determine_count expand_spec [EDict [(''X1'', ''1-4'')], EDict [(''X2'', ''1-3'')]]
        = Inl ConnectionCountMismatchError"
    by (simp add: determine_count_def expand_spec_1_3 expand_spec_1_4)
  then show ?thesis
    using determine_count_missing[of expand cs cc] determine_count_mismatch[of expand cs cc]
      determine_count_agreed[of expand cs cc n]
    by simp
qed

theorem determine_count_cases_witness:
  "connectioncount expand_spec [EDict [(''X1'', ''1-3'')], EStr ''X2'', EList [Tok ''a'', Tok ''b'', Tok ''c'']]
     = Inr [3, 3]
   \<and> determine_count expand_spec
        [EDict [(''X1'', ''1-3'')], EStr ''X2'', EList [Tok ''a'', Tok ''b'', Tok ''c'']] = Inr 3"
proof -
  have h: "connectioncount expand_spec
             [EDict [(''X1'', ''1-3'')], EStr ''X2'', EList [Tok ''a'', Tok ''b'', Tok ''c'']]
           = Inr [3, 3]"
    by (simp add: expand_spec_1_3)
  from determine_count_cases[of expand_spec _ _ _ _
         "[EDict [(''X1'', ''1-3'')], EStr ''X2'', EList [Tok ''a'', Tok ''b'', Tok ''c'']]"
         "[3, 3]" 3] h
  show ?thesis by simp
qed

text \<open>
  Claim C9. When a connection set has a candidate and every candidate is 0, its count
  fails with \<open>MissingConnectionCountError\<close>, and with it the normalisation of the set,
  the processing of the set in any state, and the build that reaches the set.
\<close>

theorem zero_count_rejected:
  assumes "connectioncount expand cs = Inr cc" and "cc \<noteq> []" and "\<forall>c\<in>set cc. c = 0"
  shows "determine_count expand cs = Inl MissingConnectionCountError
       \<and> normalize_set pfx sep expand rs cs = Inl MissingConnectionCountError
       \<and> process_set pfx sep expand tc tcab st cs = Inl MissingConnectionCountError
       \<and> process_sets pfx sep expand tc tcab b i (cs # rest) = Inl MissingConnectionCountError
       \<and> parse pfx sep expand tc tcab (cs # rest) = Inl MissingConnectionCountError"
proof -
  from determine_count_missing[OF assms(1)] assms(3)
  have d: "determine_count expand cs = Inl MissingConnectionCountError" by simp
  have p: "\<And>st. process_set pfx sep expand tc tcab st cs = Inl MissingConnectionCountError"
    using d by (rule process_set_missing)
  show ?thesis using d p by (simp add: normalize_missing parse_def)
qed

theorem zero_count_rejected_witness:
  "connectioncount expand_spec [EList [], EStr ''X1'', EList []] = Inr [0, 0]
   \<and> parse ''__'' CHR '':'' expand_spec [(''X1'', ''a'')] [] [[EList [], EStr ''X1'', EList []]]
       = (Inl MissingConnectionCountError
            :: error + ((string, string) build \<times> (string \<times> nat \<times> string list) list))"
proof -
  have h: "connectioncount expand_spec [EList [], EStr ''X1'', EList []] = Inr [0, 0]" by simp
  have n: "[0, 0] \<noteq> ([] :: nat list)" by simp
  have z: "\<forall>c\<in>set [0, 0 :: nat]. c = 0" by simp
  from zero_count_rejected[OF h n z, of "''__''" "CHR '':''" _ "[(''X1'', ''a'')]" "[]"] h
  show ?thesis by simp
qed

section \<open>Properties of the normalisation\<close>

lemma those_ok_Cons:
  "those_ok (x # xs) = Inr ys \<longleftrightarrow> (\<exists>y ys'. x = Inr y \<and> those_ok xs = Inr ys' \<and> ys = y # ys')"
  by (cases x) (auto split: sum.splits)

lemma those_ok_pin_items:
  "those_ok (map (pin_item \<circ> Tok) ds) = Inr (map (\<lambda>d. Ref d (PInt 1)) ds)"
  by (induction ds) (simp_all add: pin_item_def)

lemma connectioncount_mem:
  "connectioncount expand cs = Inr cc \<Longrightarrow> e \<in> set cs \<Longrightarrow>
     (case e of
        EStr s \<Rightarrow> True
      | EList its \<Rightarrow> length its \<in> set cc
      | EDict kvs \<Rightarrow> kvs \<noteq> [] \<and> length (expand (snd (hd kvs))) \<in> set cc)"
proof (induction expand cs arbitrary: cc rule: connectioncount.induct)
  case (1 expand)
  then show ?case by simp
next
  case (2 expand xs es)
  then show ?case by (auto split: sum.splits entry.splits)
next
  case (3 expand es)
  then show ?case by simp
next
  case (4 expand k v kvs es)
  then show ?case by (auto split: sum.splits entry.splits)
next
  case (5 expand s es)
  then show ?case by (auto split: sum.splits entry.splits)
qed

lemma resolve_items_shape:
  "resolve_items pfx sep rs its = Inr (rs1, its') \<Longrightarrow>
     \<exists>toks ds. its = map Tok toks \<and> its' = map Tok ds \<and> list_all2 (resolves_to pfx sep) toks ds"
proof (induction pfx sep rs its arbitrary: its' rule: resolve_items.induct)
  case (1 pfx sep rs)
  then show ?case by simp
next
  case (2 pfx sep rs s its)
  from "2.prems" obtain rsm t d its2 where
    step: "resolve_designator pfx rs s sep = Inr (rsm, t, d)"
    and rest: "resolve_items pfx sep rsm its = Inr (rs1, its2)"
    and out: "its' = Tok d # its2"
    by (auto split: sum.splits prod.splits)
  from "2.IH"[OF step refl refl rest] obtain toks ds where
    sh: "its = map Tok toks" "its2 = map Tok ds" "list_all2 (resolves_to pfx sep) toks ds"
    by blast
  from step have r: "resolves_to pfx sep s d" unfolding resolves_to_def by blast
  have "Tok s # its = map Tok (s # toks) \<and> its' = map Tok (d # ds)
       \<and> list_all2 (resolves_to pfx sep) (s # toks) (d # ds)"
    using sh out r by simp
  then show ?case by (intro exI[of _ "s # toks"] exI[of _ "d # ds"])
next
  case (3 pfx sep rs d p its)
  then show ?case by simp
qed

lemma resolved_rows:
  "resolve_entries pfx sep rs cs1 = Inr (rs1, cs2) \<Longrightarrow>
   expand_pin_lists expand cs2 = Inr cs3 \<Longrightarrow>
   list_all2 (resolved_row pfx sep expand) cs1 cs3"
proof (induction pfx sep rs cs1 arbitrary: cs2 cs3 rule: resolve_entries.induct)
  case (1 pfx sep rs)
  then show ?case by (simp add: expand_pin_lists_def)
next
  case (2 pfx sep rs its es)
  from "2.prems"(1) obtain rsm its' es' where
    a: "resolve_items pfx sep rs its = Inr (rsm, its')"
    and b: "resolve_entries pfx sep rsm es = Inr (rs1, es')"
    and c: "cs2 = EList its' # es'"
    by (auto split: sum.splits prod.splits)
  from "2.prems"(2) c obtain r rest where
    d: "expand_entry expand (EList its') = Inr r"
    and e: "expand_pin_lists expand es' = Inr rest"
    and f: "cs3 = r # rest"
    unfolding expand_pin_lists_def by (auto simp: those_ok_Cons)
  from resolve_items_shape[OF a] obtain toks ds where
    sh: "its = map Tok toks" "its' = map Tok ds" "list_all2 (resolves_to pfx sep) toks ds"
    by blast
  from d sh(2) have "r = EList (map (\<lambda>d. Ref d (PInt 1)) ds)"
    by (simp add: expand_entry_def those_ok_pin_items)
  with sh have "resolved_row pfx sep expand (EList its) r"
    unfolding resolved_row_def by auto
  moreover from "2.IH"[OF a refl b e] have "list_all2 (resolved_row pfx sep expand) es rest" .
  ultimately show ?case using f by simp
next
  case (3 pfx sep rs es)
  then show ?case by simp
next
  case (4 pfx sep rs key val kvs es)
  from "4.prems"(1) obtain rsm t d es' where
    a: "resolve_designator pfx rs key sep = Inr (rsm, t, d)"
    and b: "resolve_entries pfx sep rsm es = Inr (rs1, es')"
    and c: "cs2 = EDict [(d, val)] # es'"
    by (auto split: sum.splits prod.splits)
  from "4.prems"(2) c obtain r rest where
    dd: "expand_entry expand (EDict [(d, val)]) = Inr r"
    and e: "expand_pin_lists expand es' = Inr rest"
    and f: "cs3 = r # rest"
    unfolding expand_pin_lists_def by (auto simp: those_ok_Cons)
  from dd have "r = EList (map (Ref d) (expand val))" by (simp add: expand_entry_def)
  moreover from a have "resolves_to pfx sep key d" unfolding resolves_to_def by blast
  ultimately have "resolved_row pfx sep expand (EDict ((key, val) # kvs)) r"
    unfolding resolved_row_def by auto
  moreover from "4.IH"[OF a refl refl b e] have "list_all2 (resolved_row pfx sep expand) es rest" .
  ultimately show ?case using f by simp
next
  case (5 pfx sep rs s es)
  from "5.prems"(1) obtain es' where
    b: "resolve_entries pfx sep rs es = Inr (rs1, es')"
    and c: "cs2 = EStr s # es'"
    by (auto split: sum.splits prod.splits)
  from "5.prems"(2) c obtain r rest where
    dd: "expand_entry expand (EStr s :: 'a entry) = Inr r"
    and e: "expand_pin_lists expand es' = Inr rest"
    and f: "cs3 = r # rest"
    unfolding expand_pin_lists_def by (auto simp: those_ok_Cons)
  from dd have "r = EStr s" by (simp add: expand_entry_def)
  then have "resolved_row pfx sep expand (EStr s) r" unfolding resolved_row_def by simp
  moreover from "5.IH"[OF b e] have "list_all2 (resolved_row pfx sep expand) es rest" .
  ultimately show ?case using f by simp
qed

lemma list_all2_replicate:
  "list_all2 P (replicate n s) ds \<Longrightarrow> length ds = n \<and> list_all (P s) ds"
  by (auto simp: list_all2_conv_all_nth list_all_length)

lemma is_row_refs: "is_row (length ds) (EList (map (\<lambda>d. Ref d (PInt 1)) ds))"
  by (simp add: is_row_def list_all_iff is_ref_def)

lemma is_row_pins: "is_row (length ps) (EList (map (Ref d) ps))"
  by (simp add: is_row_def list_all_iff is_ref_def)

lemma determine_count_candidates:
  assumes "determine_count expand cs = Inr n"
  shows "\<exists>cc. connectioncount expand cs = Inr cc \<and> n \<noteq> 0 \<and> (\<forall>c\<in>set cc. c = n)"
proof (cases "connectioncount expand cs")
  case (Inl e)
  with assms show ?thesis by (simp add: determine_count_def)
next
  case (Inr cc)
  from determine_count_agreed[OF Inr, of n] assms Inr show ?thesis by simp
qed

lemma normal_row_of_resolved:
  assumes cnt: "case e of EStr s \<Rightarrow> True | EList its \<Rightarrow> length its = n
                 | EDict kvs \<Rightarrow> kvs \<noteq> [] \<and> length (expand (snd (hd kvs))) = n"
    and res: "resolved_row pfx sep expand
                (case e of EStr s \<Rightarrow> EList (replicate n (Tok s)) | _ \<Rightarrow> e) r"
  shows "normal_row pfx sep expand n e r \<and> is_row n r"
proof (cases e)
  case (EStr s)
  with res obtain toks ds where
    a: "replicate n (Tok s) = map Tok toks"
    and b: "list_all2 (resolves_to pfx sep) toks ds"
    and c: "r = EList (map (\<lambda>d. Ref d (PInt 1)) ds)"
    unfolding resolved_row_def by auto
  have it: "inj Tok" by (simp add: inj_def)
  from a have "map Tok toks = map Tok (replicate n s)" by simp
  with inj_map_eq_map[OF it] have "toks = replicate n s" by blast
  with b list_all2_replicate[of "resolves_to pfx sep" n s ds]
  have l: "length ds = n" and all: "list_all (resolves_to pfx sep s) ds" by simp_all
  from l c is_row_refs[of ds] have "is_row n r" by simp
  moreover from l all c EStr have "normal_row pfx sep expand n e r"
    unfolding normal_row_def by auto
  ultimately show ?thesis by simp
next
  case (EList its)
  with res obtain toks ds where
    a: "its = map Tok toks"
    and b: "list_all2 (resolves_to pfx sep) toks ds"
    and c: "r = EList (map (\<lambda>d. Ref d (PInt 1)) ds)"
    unfolding resolved_row_def by auto
  from cnt EList have "length its = n" by simp
  with a b have "length ds = n" by (auto dest: list_all2_lengthD)
  with c is_row_refs[of ds] have "is_row n r" by simp
  moreover from a b c EList have "normal_row pfx sep expand n e r"
    unfolding normal_row_def by auto
  ultimately show ?thesis by simp
next
  case (EDict kvs)
  with res obtain k v rest d where
    a: "kvs = (k, v) # rest"
    and b: "resolves_to pfx sep k d"
    and c: "r = EList (map (Ref d) (expand v))"
    unfolding resolved_row_def by auto
  from cnt EDict a have "length (expand v) = n" by simp
  with c is_row_pins[of "expand v" d] have "is_row n r" by simp
  moreover from a b c EDict have "normal_row pfx sep expand n e r"
    unfolding normal_row_def by auto
  ultimately show ?thesis by simp
qed

lemma normalize_set_parts:
  assumes "normalize_set pfx sep expand rs cs = Inr (rs1, n, cs3)"
  shows "\<exists>cs2. determine_count expand cs = Inr n
             \<and> resolve_entries pfx sep rs (expand_strings n cs) = Inr (rs1, cs2)
             \<and> expand_pin_lists expand cs2 = Inr cs3"
  using assms unfolding normalize_set_def
  by (auto split: sum.splits prod.splits)

lemma rows_after_normalize_aux:
  assumes "normalize_set pfx sep expand rs cs = Inr (rs1, n, cs3)"
  shows "0 < n \<and> list_all2 (\<lambda>e r. normal_row pfx sep expand n e r \<and> is_row n r) cs cs3"
proof -
  from normalize_set_parts[OF assms] obtain cs2 where
    d: "determine_count expand cs = Inr n"
    and r: "resolve_entries pfx sep rs (expand_strings n cs) = Inr (rs1, cs2)"
    and e: "expand_pin_lists expand cs2 = Inr cs3" by blast
  from determine_count_candidates[OF d] obtain cc where
    cc: "connectioncount expand cs = Inr cc" and n0: "n \<noteq> 0" and all: "\<forall>c\<in>set cc. c = n"
    by blast
  have cnt: "case e of EStr s \<Rightarrow> True | EList its \<Rightarrow> length its = n
                 | EDict kvs \<Rightarrow> kvs \<noteq> [] \<and> length (expand (snd (hd kvs))) = n"
    if "e \<in> set cs" for e
    using connectioncount_mem[OF cc that] all by (cases e) auto
  from resolved_rows[OF r e]
  have rr: "list_all2 (\<lambda>e r. resolved_row pfx sep expand
            (case e of EStr s \<Rightarrow> EList (replicate n (Tok s)) | _ \<Rightarrow> e) r) cs cs3"
    unfolding expand_strings_def by (simp add: list_all2_map1)
  have "list_all2 (\<lambda>e r. normal_row pfx sep expand n e r \<and> is_row n r) cs cs3"
    unfolding list_all2_conv_all_nth
  proof (intro conjI allI impI)
    from rr show "length cs = length cs3" by (rule list_all2_lengthD)
  next
    fix i assume i: "i < length cs"
    then have m: "cs ! i \<in> set cs" by simp
    from rr i have "resolved_row pfx sep expand
            (case cs ! i of EStr s \<Rightarrow> EList (replicate n (Tok s)) | _ \<Rightarrow> cs ! i) (cs3 ! i)"
      by (simp add: list_all2_conv_all_nth)
    from normal_row_of_resolved[OF cnt[OF m] this]
    show "normal_row pfx sep expand n (cs ! i) (cs3 ! i)" and "is_row n (cs3 ! i)" by simp_all
  qed
  with n0 show ?thesis by simp
qed

lemma rows_after_normalize:
  assumes "normalize_set pfx sep expand rs cs = Inr (rs1, n, cs3)"
  shows "0 < n \<and> length cs3 = length cs \<and> list_all (is_row n) cs3
       \<and> list_all2 (normal_row pfx sep expand n) cs cs3"
proof -
  from rows_after_normalize_aux[OF assms]
  have n: "0 < n"
    and l: "list_all2 (\<lambda>e r. normal_row pfx sep expand n e r \<and> is_row n r) cs cs3" by simp_all
  from l have len: "length cs3 = length cs" by (simp add: list_all2_lengthD)
  from l have a: "list_all2 (normal_row pfx sep expand n) cs cs3"
    by (simp add: list_all2_conv_all_nth)
  from l have "\<forall>i<length cs3. is_row n (cs3 ! i)" by (simp add: list_all2_conv_all_nth)
  then have b: "list_all (is_row n) cs3" by (simp add: list_all_length)
  from n len a b show ?thesis by simp
qed

lemma process_set_normalize:
  "process_set pfx sep expand tc tcab st cs = Inr (rs1, h1, cs3) \<Longrightarrow>
     \<exists>n. normalize_set pfx sep expand (fst st) cs = Inr (rs1, n, cs3)"
  unfolding process_set_def by (auto split: sum.splits prod.splits)

lemma process_sets_yaml:
  "process_sets pfx sep expand tc tcab b i rest = Inr b' \<Longrightarrow>
   i + length rest \<le> length (yaml_connections b) \<Longrightarrow>
     length (yaml_connections b') = length (yaml_connections b)
   \<and> (\<forall>j<i. yaml_connections b' ! j = yaml_connections b ! j)
   \<and> (\<forall>j<length rest. \<exists>rs rs1 n.
          normalize_set pfx sep expand rs (rest ! j) = Inr (rs1, n, yaml_connections b' ! (i + j)))"
proof (induction rest arbitrary: b i)
  case Nil
  then show ?case by simp
next
  case (Cons cs rest)
  from Cons.prems(1) obtain rs1 h1 cs3 where
    p: "process_set pfx sep expand tc tcab (resolver_state b, the_harness b) cs = Inr (rs1, h1, cs3)"
    and r: "process_sets pfx sep expand tc tcab
              \<lparr>resolver_state = rs1, the_harness = h1,
               yaml_connections = (yaml_connections b)[i := cs3]\<rparr> (Suc i) rest = Inr b'"
    by (auto split: sum.splits prod.splits)
  let ?b2 = "\<lparr>resolver_state = rs1, the_harness = h1,
              yaml_connections = (yaml_connections b)[i := cs3]\<rparr>"
  from Cons.prems(2) have le: "Suc i + length rest \<le> length (yaml_connections ?b2)" by simp
  from Cons.IH[OF r le]
  have len: "length (yaml_connections b') = length (yaml_connections b)"
    and old: "\<forall>j<Suc i. yaml_connections b' ! j = (yaml_connections b)[i := cs3] ! j"
    and new: "\<forall>j<length rest. \<exists>rs rs1 n.
          normalize_set pfx sep expand rs (rest ! j) = Inr (rs1, n, yaml_connections b' ! (Suc i + j))"
    by simp_all
  from Cons.prems(2) have ilt: "i < length (yaml_connections b)" by simp
  from old ilt have at_i: "yaml_connections b' ! i = cs3" by simp
  from old have before: "\<forall>j<i. yaml_connections b' ! j = yaml_connections b ! j" by simp
  from process_set_normalize[OF p] obtain n where
    n: "normalize_set pfx sep expand (resolver_state b) cs = Inr (rs1, n, cs3)" by auto
  have "\<exists>rs rs1 n. normalize_set pfx sep expand rs ((cs # rest) ! j)
            = Inr (rs1, n, yaml_connections b' ! (i + j))"
    if "j < length (cs # rest)" for j
  proof (cases j)
    case 0
    with n at_i show ?thesis by auto
  next
    case (Suc j')
    with that new show ?thesis by simp
  qed
  with len before show ?case by blast
qed


section \<open>Properties of the connect pass\<close>

lemma connect_item_eq:
  assumes "j < length entry"
  shows "connect_item h entry j =
     h\<lparr>connections := connections h @
          (if fst (entry ! j) \<in> fst ` set (cables h) then [connection_at entry j] else [])\<rparr>"
proof -
  from assms have "(j = length entry - 1) = (Suc j = length entry)" by auto
  then show ?thesis
    by (simp add: connect_item_def connect_def connection_at_def get_single_key_and_value_def Let_def)
qed

lemma connect_positions:
  assumes "\<forall>j\<in>set js. j < length entry"
  shows "fold (\<lambda>index_item h'. connect_item h' entry index_item) js h =
     h\<lparr>connections := connections h @
          map (connection_at entry) (filter (\<lambda>j. fst (entry ! j) \<in> fst ` set (cables h)) js)\<rparr>"
  using assms
proof (induction js arbitrary: h)
  case Nil
  then show ?case by simp
next
  case (Cons j js)
  then have j: "j < length entry" and rest: "\<forall>j\<in>set js. j < length entry" by simp_all
  show ?case
    unfolding fold_simps connect_item_eq[OF j] Cons.IH[OF rest]
    by simp
qed

lemma connect_entry_eq:
  "connect_entry h entry =
     h\<lparr>connections := connections h @ map (connection_at entry) (cable_positions h entry)\<rparr>"
  unfolding connect_entry_def cable_positions_def
  by (rule connect_positions) simp

lemma connect_components_eq:
  "connect_components h paths =
     h\<lparr>connections := connections h @
          concat (map (\<lambda>entry. map (connection_at entry) (cable_positions h entry)) paths)\<rparr>"
  unfolding connect_components_def
proof (induction paths arbitrary: h)
  case Nil
  then show ?case by simp
next
  case (Cons entry paths)
  let ?F = "\<lambda>entry h'. connect_entry h' entry"
  let ?h1 = "connect_entry h entry"
  have c: "cable_positions ?h1 e = cable_positions h e" for e
    by (simp add: cable_positions_def connect_entry_eq)
  have "fold ?F (entry # paths) h = fold ?F paths ?h1" by simp
  also have "\<dots> = ?h1\<lparr>connections := connections ?h1 @
          concat (map (\<lambda>entry. map (connection_at entry) (cable_positions ?h1 entry)) paths)\<rparr>"
    by (rule Cons.IH)
  also have "\<dots> = h\<lparr>connections := connections h @
          concat (map (\<lambda>entry. map (connection_at entry) (cable_positions h entry))
                    (entry # paths))\<rparr>"
    unfolding c by (simp add: connect_entry_eq)
  finally show ?case .
qed

lemma connection_at_endpoints:
  assumes "j < length entry"
  shows "case connection_at entry j of
           Connection f v t \<Rightarrow>
             (f = None \<longleftrightarrow> j = 0) \<and> (t = None \<longleftrightarrow> Suc j = length entry) \<and> v = entry ! j
             \<and> (0 < j \<longrightarrow> f = Some (entry ! (j - 1)))
             \<and> (Suc j < length entry \<longrightarrow> t = Some (entry ! Suc j))"
  using assms by (simp add: connection_at_def)


section \<open>The scenario of two connectors joined by a three-wire cable\<close>

lemma cab_name: "auto_name pfx ''CAB1'' (Suc 0) = pfx @ ''CAB1_1''"
  by (simp add: auto_name_def str_nat.simps digit_char_def)

lemma cab_name_ne:
  "(pfx @ ''CAB1_1'' = ''P1'') = False" "(pfx @ ''CAB1_1'' = ''P2'') = False"
  "(''P1'' = pfx @ ''CAB1_1'') = False" "(''P2'' = pfx @ ''CAB1_1'') = False"
proof -
  have l: "length (pfx @ ''CAB1_1'') \<noteq> length ''P1''" "length (pfx @ ''CAB1_1'') \<noteq> length ''P2''"
    by simp_all
  from l(1) have a: "pfx @ ''CAB1_1'' \<noteq> ''P1''" by metis
  from l(2) have b: "pfx @ ''CAB1_1'' \<noteq> ''P2''" by metis
  from a show "(pfx @ ''CAB1_1'' = ''P1'') = False" by simp
  from b show "(pfx @ ''CAB1_1'' = ''P2'') = False" by simp
  from a show "(''P1'' = pfx @ ''CAB1_1'') = False" by (simp add: eq_commute)
  from b show "(''P2'' = pfx @ ''CAB1_1'') = False" by (simp add: eq_commute)
qed

lemma scenario_a_normalize:
  "normalize_set pfx CHR '':'' expand_spec empty_resolver
      [EStr ''DB9:P1'', EDict [(''CAB1:'', ''1-3'')], EStr ''DB9:P2'']
   = Inr (\<lparr>designators_and_templates =
             [(''P1'', ''DB9''), (pfx @ ''CAB1_1'', ''CAB1''), (''P2'', ''DB9'')],
           autogenerated_designators = [(''CAB1'', 1)]\<rparr>, 3,
          [EList [Ref ''P1'' (PInt 1), Ref ''P1'' (PInt 1), Ref ''P1'' (PInt 1)],
           EList [Ref (pfx @ ''CAB1_1'') (PInt 1), Ref (pfx @ ''CAB1_1'') (PInt 2),
                  Ref (pfx @ ''CAB1_1'') (PInt 3)],
           EList [Ref ''P2'' (PInt 1), Ref ''P2'' (PInt 1), Ref ''P2'' (PInt 1)]])"
  by (simp add: normalize_set_def determine_count_def expand_spec_1_3 expand_strings_def
        expand_pin_lists_def expand_entry_def pin_item_def resolve_designator_def
        empty_resolver_def Let_def get0_def cab_name cab_name_ne numeral_3_eq_3)

lemma scenario_a_generate:
  assumes "c \<noteq> ''P1''" "c \<noteq> ''P2''"
  shows "generate_components [(''DB9'', db9)] [(''CAB1'', cab1)]
      [(''P1'', ''DB9''), (c, ''CAB1''), (''P2'', ''DB9'')]
      empty_harness
      [EList [Ref ''P1'' (PInt 1), Ref ''P1'' (PInt 1), Ref ''P1'' (PInt 1)],
       EList [Ref c (PInt 1), Ref c (PInt 2), Ref c (PInt 3)],
       EList [Ref ''P2'' (PInt 1), Ref ''P2'' (PInt 1), Ref ''P2'' (PInt 1)] :: string entry]
   = Inr \<lparr>connectors = [(''P1'', db9), (''P2'', db9)], cables = [(c, cab1)], connections = []\<rparr>"
proof -
  have n: "''P1'' \<noteq> c" "''P2'' \<noteq> c" using assms by auto
  show ?thesis
    using assms n
    by (simp add: generate_components_def gen_entry_def gen_item_def entry_items_def
        check_type_def alternate_type_def add_connector_def add_cable_def empty_harness_def)
qed

lemma scenario_a_rows:
  "rows_of
      [EList [Ref ''P1'' (PInt 1), Ref ''P1'' (PInt 1), Ref ''P1'' (PInt 1)],
       EList [Ref c (PInt 1), Ref c (PInt 2), Ref c (PInt 3)],
       EList [Ref ''P2'' (PInt 1), Ref ''P2'' (PInt 1), Ref ''P2'' (PInt 1)] :: string entry]
   = Inr [[(''P1'', PInt 1), (''P1'', PInt 1), (''P1'', PInt 1)],
          [(c, PInt 1), (c, PInt 2), (c, PInt 3)],
          [(''P2'', PInt 1), (''P2'', PInt 1), (''P2'', PInt 1)]]"
  by (simp add: rows_of_def entry_items_def item_ref_def)

lemma scenario_a_zip:
  "zip_star [[(''P1'', PInt 1), (''P1'', PInt 1), (''P1'', PInt 1)],
          [(c, PInt 1), (c, PInt 2), (c, PInt 3)],
          [(''P2'', PInt 1), (''P2'', PInt 1), (''P2'', PInt 1)]]
   = [[(''P1'', PInt 1), (c, PInt 1), (''P2'', PInt 1)],
      [(''P1'', PInt 1), (c, PInt 2), (''P2'', PInt 1)],
      [(''P1'', PInt 1), (c, PInt 3), (''P2'', PInt 1)]]"
  by (simp add: zip_star_def upt_conv_Cons)

lemma scenario_a_connect:
  assumes "c \<noteq> ''P1''" "c \<noteq> ''P2''"
  shows "connect_components
     \<lparr>connectors = [(''P1'', db9), (''P2'', db9)], cables = [(c, cab1)], connections = []\<rparr>
     [[(''P1'', PInt 1), (c, PInt 1), (''P2'', PInt 1)],
      [(''P1'', PInt 1), (c, PInt 2), (''P2'', PInt 1)],
      [(''P1'', PInt 1), (c, PInt 3), (''P2'', PInt 1)]]
   = \<lparr>connectors = [(''P1'', db9), (''P2'', db9)], cables = [(c, cab1)],
      connections =
        [Connection (Some (''P1'', PInt 1)) (c, PInt 1) (Some (''P2'', PInt 1)),
         Connection (Some (''P1'', PInt 1)) (c, PInt 2) (Some (''P2'', PInt 1)),
         Connection (Some (''P1'', PInt 1)) (c, PInt 3) (Some (''P2'', PInt 1))]\<rparr>"
proof -
  have n: "''P1'' \<noteq> c" "''P2'' \<noteq> c" using assms by auto
  have p: "cable_positions \<lparr>connectors = [(''P1'', db9), (''P2'', db9)], cables = [(c, cab1)],
             connections = []\<rparr> [(''P1'', PInt 1), (c, q), (''P2'', PInt 1)] = [1]" for q
    using n by (simp add: cable_positions_def upt_conv_Cons)
  show ?thesis
    unfolding connect_components_eq by (simp add: p connection_at_def)
qed

lemma scenario_a_bom:
  assumes "db9 \<noteq> cab1"
  shows "populate_bom \<lparr>connectors = [(''P1'', db9), (''P2'', db9)],
      cables = [(c, cab1)], connections = cs\<rparr>
   = [(db9, 2, [''P1'', ''P2'']), (cab1, 1, [c])]"
  using assms by (simp add: populate_bom_def)

lemma scenario_a_process:
  "process_set pfx CHR '':'' expand_spec [(''DB9'', db9)] [(''CAB1'', cab1)]
      (empty_resolver, empty_harness)
      [EStr ''DB9:P1'', EDict [(''CAB1:'', ''1-3'')], EStr ''DB9:P2'']
   = Inr (\<lparr>designators_and_templates =
             [(''P1'', ''DB9''), (pfx @ ''CAB1_1'', ''CAB1''), (''P2'', ''DB9'')],
           autogenerated_designators = [(''CAB1'', 1)]\<rparr>,
          \<lparr>connectors = [(''P1'', db9), (''P2'', db9)], cables = [(pfx @ ''CAB1_1'', cab1)],
           connections =
             [Connection (Some (''P1'', PInt 1)) (pfx @ ''CAB1_1'', PInt 1) (Some (''P2'', PInt 1)),
              Connection (Some (''P1'', PInt 1)) (pfx @ ''CAB1_1'', PInt 2) (Some (''P2'', PInt 1)),
              Connection (Some (''P1'', PInt 1)) (pfx @ ''CAB1_1'', PInt 3) (Some (''P2'', PInt 1))]\<rparr>,
          [EList [Ref ''P1'' (PInt 1), Ref ''P1'' (PInt 1), Ref ''P1'' (PInt 1)],
           EList [Ref (pfx @ ''CAB1_1'') (PInt 1), Ref (pfx @ ''CAB1_1'') (PInt 2),
                  Ref (pfx @ ''CAB1_1'') (PInt 3)],
           EList [Ref ''P2'' (PInt 1), Ref ''P2'' (PInt 1), Ref ''P2'' (PInt 1)]])"
proof -
  have a: "pfx @ ''CAB1_1'' \<noteq> ''P1''" and b: "pfx @ ''CAB1_1'' \<noteq> ''P2''"
    using cab_name_ne[of pfx] by simp_all
  show ?thesis
    unfolding process_set_def fst_conv snd_conv scenario_a_normalize
    by (simp add: scenario_a_generate[OF a b] scenario_a_rows scenario_a_zip
          scenario_a_connect[OF a b])
qed


section \<open>Claims about the normalisation\<close>

text \<open>
  Claim C5. When the normalisation of a connection set succeeds with the count \<open>n\<close>,
  then \<open>n\<close> is positive, the result has one row for every entry, in the order of the
  entries, every row is a list of exactly \<open>n\<close> records \<open>{designator: pin}\<close>, and the row
  of an entry is as \<open>normal_row\<close> says: records on pin 1 for the tokens of a list (or the
  copies of a string), and one record for every pin of the expanded pin list of a
  mapping, on the designator that its key resolves to.
\<close>

theorem normalize_set_rows:
  assumes "normalize_set pfx sep expand rs cs = Inr (rs1, n, cs3)"
  shows "0 < n \<and> length cs3 = length cs \<and> list_all (is_row n) cs3
       \<and> list_all2 (normal_row pfx sep expand n) cs cs3"
  using assms by (rule rows_after_normalize)

theorem normalize_set_rows_witness:
  "normalize_set ''__'' CHR '':'' expand_spec empty_resolver
      [EStr ''DB9:P1'', EDict [(''CAB1:'', ''1-3'')], EStr ''DB9:P2'']
   = Inr (\<lparr>designators_and_templates =
             [(''P1'', ''DB9''), (''__CAB1_1'', ''CAB1''), (''P2'', ''DB9'')],
           autogenerated_designators = [(''CAB1'', 1)]\<rparr>, 3,
          [EList [Ref ''P1'' (PInt 1), Ref ''P1'' (PInt 1), Ref ''P1'' (PInt 1)],
           EList [Ref ''__CAB1_1'' (PInt 1), Ref ''__CAB1_1'' (PInt 2), Ref ''__CAB1_1'' (PInt 3)],
           EList [Ref ''P2'' (PInt 1), Ref ''P2'' (PInt 1), Ref ''P2'' (PInt 1)]])
   \<and> list_all (is_row 3)
        [EList [Ref ''P1'' (PInt 1), Ref ''P1'' (PInt 1), Ref ''P1'' (PInt 1)],
         EList [Ref ''__CAB1_1'' (PInt 1), Ref ''__CAB1_1'' (PInt 2), Ref ''__CAB1_1'' (PInt 3)],
         EList [Ref ''P2'' (PInt 1), Ref ''P2'' (PInt 1), Ref ''P2'' (PInt 1)] :: string entry]"
  using normalize_set_rows[OF scenario_a_normalize[of "''__''"]] scenario_a_normalize[of "''__''"]
  by simp

section \<open>Claims about the whole build\<close>

text \<open>
  Claim C1. With the connector template \<open>DB9\<close> and the cable template \<open>CAB1\<close> (of
  different attributes), the connection set \<open>["DB9:P1", {"CAB1:": "1-3"}, "DB9:P2"]\<close>
  gives exactly the connectors \<open>P1\<close> and \<open>P2\<close> of \<open>DB9\<close>, the cable
  \<open>pfx @ "CAB1_1"\<close> of \<open>CAB1\<close>, the three connections
  \<open>(P1,1)-(cable,k)-(P2,1)\<close> for \<open>k = 1, 2, 3\<close>, and a bill of materials with one row of
  quantity 2 for \<open>P1\<close> and \<open>P2\<close> and one row of quantity 1 for the cable.
\<close>

theorem happy_path_build:
  assumes "db9 \<noteq> cab1"
  shows "parse pfx CHR '':'' expand_spec [(''DB9'', db9)] [(''CAB1'', cab1)]
      [[EStr ''DB9:P1'', EDict [(''CAB1:'', ''1-3'')], EStr ''DB9:P2'']]
   = Inr (\<lparr>resolver_state =
            \<lparr>designators_and_templates =
               [(''P1'', ''DB9''), (pfx @ ''CAB1_1'', ''CAB1''), (''P2'', ''DB9'')],
             autogenerated_designators = [(''CAB1'', 1)]\<rparr>,
           the_harness =
            \<lparr>connectors = [(''P1'', db9), (''P2'', db9)], cables = [(pfx @ ''CAB1_1'', cab1)],
             connections =
               [Connection (Some (''P1'', PInt 1)) (pfx @ ''CAB1_1'', PInt 1) (Some (''P2'', PInt 1)),
                Connection (Some (''P1'', PInt 1)) (pfx @ ''CAB1_1'', PInt 2) (Some (''P2'', PInt 1)),
                Connection (Some (''P1'', PInt 1)) (pfx @ ''CAB1_1'', PInt 3) (Some (''P2'', PInt 1))]\<rparr>,
           yaml_connections =
            [[EList [Ref ''P1'' (PInt 1), Ref ''P1'' (PInt 1), Ref ''P1'' (PInt 1)],
              EList [Ref (pfx @ ''CAB1_1'') (PInt 1), Ref (pfx @ ''CAB1_1'') (PInt 2),
                     Ref (pfx @ ''CAB1_1'') (PInt 3)],
              EList [Ref ''P2'' (PInt 1), Ref ''P2'' (PInt 1), Ref ''P2'' (PInt 1)]]]\<rparr>,
          [(db9, 2, [''P1'', ''P2'']), (cab1, 1, [pfx @ ''CAB1_1''])])"
  unfolding parse_def
  by (simp add: scenario_a_process scenario_a_bom[OF assms])

theorem happy_path_build_witness:
  "''nine pins'' \<noteq> ''three wires''
   \<and> map_sum id (\<lambda>r. (connectors (the_harness (fst r)), cables (the_harness (fst r)), snd r))
       (parse ''__'' CHR '':'' expand_spec [(''DB9'', ''nine pins'')] [(''CAB1'', ''three wires'')]
          [[EStr ''DB9:P1'', EDict [(''CAB1:'', ''1-3'')], EStr ''DB9:P2'']])
     = Inr ([(''P1'', ''nine pins''), (''P2'', ''nine pins'')], [(''__CAB1_1'', ''three wires'')],
            [(''nine pins'', 2, [''P1'', ''P2'']), (''three wires'', 1, [''__CAB1_1''])])"
proof -
  have h: "''nine pins'' \<noteq> ''three wires''" by simp
  from happy_path_build[OF h, of "''__''"] h show ?thesis by simp
qed

text \<open>
  Claim C10. The loop works on the list \<open>yaml_data["connections"]\<close> itself. After a
  successful build that list has as many connection sets as before, and every connection
  set has been overwritten by its normalisation: as many entries as before, each a list
  of records \<open>{designator: pin}\<close> of one width.
\<close>

theorem parse_overwrites_connections:
  assumes "parse pfx sep expand yaml_connectors yaml_cables connection_sets = Inr (b, bom)"
  shows "length (yaml_connections b) = length connection_sets
       \<and> (\<forall>i<length connection_sets.
             (\<exists>rs rs1 n. normalize_set pfx sep expand rs (connection_sets ! i)
                            = Inr (rs1, n, yaml_connections b ! i))
           \<and> length (yaml_connections b ! i) = length (connection_sets ! i)
           \<and> (\<exists>n. list_all (is_row n) (yaml_connections b ! i)))"
proof -
  let ?b0 = "\<lparr>resolver_state = empty_resolver, the_harness = (empty_harness :: 'a harness),
              yaml_connections = connection_sets\<rparr>"
  from assms have p: "process_sets pfx sep expand yaml_connectors yaml_cables ?b0 0 connection_sets
        = Inr b"
    unfolding parse_def by (auto split: sum.splits)
  have le: "0 + length connection_sets \<le> length (yaml_connections ?b0)" by simp
  from process_sets_yaml[OF p le]
  have len: "length (yaml_connections b) = length connection_sets"
    and new: "\<forall>j<length connection_sets. \<exists>rs rs1 n.
          normalize_set pfx sep expand rs (connection_sets ! j) = Inr (rs1, n, yaml_connections b ! j)"
    by simp_all
  have "(\<exists>rs rs1 n. normalize_set pfx sep expand rs (connection_sets ! i)
                            = Inr (rs1, n, yaml_connections b ! i))
           \<and> length (yaml_connections b ! i) = length (connection_sets ! i)
           \<and> (\<exists>n. list_all (is_row n) (yaml_connections b ! i))"
    if "i < length connection_sets" for i
  proof -
    from new that obtain rs rs1 n where
      n: "normalize_set pfx sep expand rs (connection_sets ! i) = Inr (rs1, n, yaml_connections b ! i)"
      by blast
    from rows_after_normalize[OF n] n show ?thesis by blast
  qed
  with len show ?thesis by blast
qed

theorem parse_overwrites_connections_witness:
  "yaml_connections (fst (projr
       (parse ''__'' CHR '':'' expand_spec [(''DB9'', ''nine pins'')] [(''CAB1'', ''three wires'')]
          [[EStr ''DB9:P1'', EDict [(''CAB1:'', ''1-3'')], EStr ''DB9:P2'']])))
     = [[EList [Ref ''P1'' (PInt 1), Ref ''P1'' (PInt 1), Ref ''P1'' (PInt 1)],
         EList [Ref ''__CAB1_1'' (PInt 1), Ref ''__CAB1_1'' (PInt 2), Ref ''__CAB1_1'' (PInt 3)],
         EList [Ref ''P2'' (PInt 1), Ref ''P2'' (PInt 1), Ref ''P2'' (PInt 1)]]]
   \<and> list_all (is_row 3)
        (yaml_connections (fst (projr
       (parse ''__'' CHR '':'' expand_spec [(''DB9'', ''nine pins'')] [(''CAB1'', ''three wires'')]
          [[EStr ''DB9:P1'', EDict [(''CAB1:'', ''1-3'')], EStr ''DB9:P2'']]))) ! 0)"
proof -
  have h: "''nine pins'' \<noteq> ''three wires''" by simp
  note s = scenario_a_process[of "''__''" "''nine pins''" "''three wires''"]
  have p: "parse ''__'' CHR '':'' expand_spec [(''DB9'', ''nine pins'')] [(''CAB1'', ''three wires'')]
          [[EStr ''DB9:P1'', EDict [(''CAB1:'', ''1-3'')], EStr ''DB9:P2'']]
     = Inr (\<lparr>resolver_state =
            \<lparr>designators_and_templates =
               [(''P1'', ''DB9''), (''__CAB1_1'', ''CAB1''), (''P2'', ''DB9'')],
             autogenerated_designators = [(''CAB1'', 1)]\<rparr>,
           the_harness =
            \<lparr>connectors = [(''P1'', ''nine pins''), (''P2'', ''nine pins'')],
             cables = [(''__CAB1_1'', ''three wires'')],
             connections =
               [Connection (Some (''P1'', PInt 1)) (''__CAB1_1'', PInt 1) (Some (''P2'', PInt 1)),
                Connection (Some (''P1'', PInt 1)) (''__CAB1_1'', PInt 2) (Some (''P2'', PInt 1)),
                Connection (Some (''P1'', PInt 1)) (''__CAB1_1'', PInt 3) (Some (''P2'', PInt 1))]\<rparr>,
           yaml_connections =
            [[EList [Ref ''P1'' (PInt 1), Ref ''P1'' (PInt 1), Ref ''P1'' (PInt 1)],
              EList [Ref ''__CAB1_1'' (PInt 1), Ref ''__CAB1_1'' (PInt 2), Ref ''__CAB1_1'' (PInt 3)],
              EList [Ref ''P2'' (PInt 1), Ref ''P2'' (PInt 1), Ref ''P2'' (PInt 1)]]]\<rparr>,
          [(''nine pins'', 2, [''P1'', ''P2'']), (''three wires'', 1, [''__CAB1_1''])])"
    unfolding parse_def using s by (simp add: scenario_a_bom[OF h])
  from parse_overwrites_connections[OF p] p show ?thesis
    by (simp add: is_row_def is_ref_def)
qed

section \<open>The bindings of designators across a build\<close>

lemma resolve_items_keeps:
  "resolve_items pfx sep rs its = Inr (rs1, its') \<Longrightarrow>
   map_of (designators_and_templates rs) d = Some t \<Longrightarrow>
   map_of (designators_and_templates rs1) d = Some t"
proof (induction pfx sep rs its arbitrary: its' rule: resolve_items.induct)
  case (1 pfx sep rs)
  then show ?case by simp
next
  case (2 pfx sep rs s its)
  from "2.prems"(1) obtain rsm tm dm its2 where
    step: "resolve_designator pfx rs s sep = Inr (rsm, tm, dm)"
    and rest: "resolve_items pfx sep rsm its = Inr (rs1, its2)"
    by (auto split: sum.splits prod.splits)
  from resolve_keeps[OF step "2.prems"(2)]
  have "map_of (designators_and_templates rsm) d = Some t" .
  from "2.IH"[OF step refl refl rest this] show ?case .
next
  case (3 pfx sep rs d p its)
  then show ?case by simp
qed

lemma resolve_entries_keeps:
  "resolve_entries pfx sep rs cs = Inr (rs1, cs') \<Longrightarrow>
   map_of (designators_and_templates rs) d = Some t \<Longrightarrow>
   map_of (designators_and_templates rs1) d = Some t"
proof (induction pfx sep rs cs arbitrary: cs' rule: resolve_entries.induct)
  case (1 pfx sep rs)
  then show ?case by simp
next
  case (2 pfx sep rs its es)
  from "2.prems"(1) obtain rsm its' es' where
    a: "resolve_items pfx sep rs its = Inr (rsm, its')"
    and b: "resolve_entries pfx sep rsm es = Inr (rs1, es')"
    by (auto split: sum.splits prod.splits)
  from resolve_items_keeps[OF a "2.prems"(2)]
  have "map_of (designators_and_templates rsm) d = Some t" .
  from "2.IH"[OF a refl b this] show ?case .
next
  case (3 pfx sep rs es)
  then show ?case by simp
next
  case (4 pfx sep rs key val kvs es)
  from "4.prems"(1) obtain rsm tm dm es' where
    a: "resolve_designator pfx rs key sep = Inr (rsm, tm, dm)"
    and b: "resolve_entries pfx sep rsm es = Inr (rs1, es')"
    by (auto split: sum.splits prod.splits)
  from resolve_keeps[OF a "4.prems"(2)]
  have "map_of (designators_and_templates rsm) d = Some t" .
  from "4.IH"[OF a refl refl b this] show ?case .
next
  case (5 pfx sep rs s es)
  from "5.prems"(1) obtain es' where
    b: "resolve_entries pfx sep rs es = Inr (rs1, es')"
    by (auto split: sum.splits prod.splits)
  from "5.IH"[OF b "5.prems"(2)] show ?case .
qed

lemma process_set_keeps:
  assumes "process_set pfx sep expand tc tcab (rs, h) cs = Inr (rs1, h1, cs3)"
    and "map_of (designators_and_templates rs) d = Some t"
  shows "map_of (designators_and_templates rs1) d = Some t"
proof -
  from process_set_normalize[OF assms(1)] obtain n where
    "normalize_set pfx sep expand rs cs = Inr (rs1, n, cs3)" by auto
  from normalize_set_parts[OF this] obtain cs2 where
    "resolve_entries pfx sep rs (expand_strings n cs) = Inr (rs1, cs2)" by blast
  from resolve_entries_keeps[OF this assms(2)] show ?thesis .
qed

lemma process_sets_keeps:
  "process_sets pfx sep expand tc tcab b i sets = Inr b' \<Longrightarrow>
   map_of (designators_and_templates (resolver_state b)) d = Some t \<Longrightarrow>
   map_of (designators_and_templates (resolver_state b')) d = Some t"
proof (induction sets arbitrary: b i)
  case Nil
  then show ?case by simp
next
  case (Cons cs sets)
  from Cons.prems(1) obtain rs1 h1 cs3 where
    p: "process_set pfx sep expand tc tcab (resolver_state b, the_harness b) cs = Inr (rs1, h1, cs3)"
    and r: "process_sets pfx sep expand tc tcab
              \<lparr>resolver_state = rs1, the_harness = h1,
               yaml_connections = (yaml_connections b)[i := cs3]\<rparr> (Suc i) sets = Inr b'"
    by (auto split: sum.splits prod.splits)
  from process_set_keeps[OF p Cons.prems(2)]
  have "map_of (designators_and_templates rs1) d = Some t" .
  then have "map_of (designators_and_templates (resolver_state
              \<lparr>resolver_state = rs1, the_harness = h1,
               yaml_connections = (yaml_connections b)[i := cs3]\<rparr>)) d = Some t" by simp
  from Cons.IH[OF r this] show ?case .
qed

text \<open>
  Claim C6. Let the designator \<open>d\<close> be bound to the template \<open>t\<close>. A token
  \<open>t':d\<close> with another template fails with \<open>DesignatorConflictError\<close>, and so does
  a token \<open>t':\<close> whose generated name is \<open>d\<close>. A resolution that does not fail, and
  a whole run of them, leaves \<open>d\<close> bound to \<open>t\<close>; after the run, \<open>t':d\<close> still fails.
  The connection sets of a build that does not fail leave \<open>d\<close> bound to \<open>t\<close> as well.
\<close>

theorem binding_never_changes:
  assumes "map_of (designators_and_templates rs) d = Some t"
  shows "(sep \<notin> set t' \<and> sep \<notin> set d \<and> d \<noteq> [] \<and> t' \<noteq> t \<longrightarrow>
            resolve_designator pfx rs (t' @ sep # d) sep = Inl (DesignatorConflictError d t t'))
       \<and> (sep \<notin> set t' \<and> t' \<noteq> t
            \<and> auto_name pfx t' (get0 (autogenerated_designators rs) t' + 1) = d \<longrightarrow>
            resolve_designator pfx rs (t' @ [sep]) sep = Inl (DesignatorConflictError d t t'))
       \<and> (resolve_designator pfx rs tok sep = Inr (rs1, r) \<longrightarrow>
            map_of (designators_and_templates rs1) d = Some t)
       \<and> (resolve_all pfx sep rs toks = Inr (rs2, outs) \<longrightarrow>
            map_of (designators_and_templates rs2) d = Some t
            \<and> (sep \<notin> set t' \<and> sep \<notin> set d \<and> d \<noteq> [] \<and> t' \<noteq> t \<longrightarrow>
                 resolve_designator pfx rs2 (t' @ sep # d) sep = Inl (DesignatorConflictError d t t')))
       \<and> (process_sets pfx sep expand tc tcab b i sets = Inr b' \<and> resolver_state b = rs \<longrightarrow>
            map_of (designators_and_templates (resolver_state b')) d = Some t)"
proof (intro conjI impI)
  assume "sep \<notin> set t' \<and> sep \<notin> set d \<and> d \<noteq> [] \<and> t' \<noteq> t"
  with assms show "resolve_designator pfx rs (t' @ sep # d) sep = Inl (DesignatorConflictError d t t')"
    by (simp add: resolve_conflict)
next
  assume a: "sep \<notin> set t' \<and> t' \<noteq> t \<and> auto_name pfx t' (get0 (autogenerated_designators rs) t' + 1) = d"
  then have "map_of (designators_and_templates rs)
      (auto_name pfx t' (get0 (autogenerated_designators rs) t' + 1)) = Some t"
    using assms by simp
  from resolve_conflict_auto[OF this] a
  show "resolve_designator pfx rs (t' @ [sep]) sep = Inl (DesignatorConflictError d t t')" by simp
next
  assume "resolve_designator pfx rs tok sep = Inr (rs1, r)"
  from resolve_keeps[OF this assms] show "map_of (designators_and_templates rs1) d = Some t" .
next
  assume "resolve_all pfx sep rs toks = Inr (rs2, outs)"
  from resolve_all_keeps[OF this assms] show "map_of (designators_and_templates rs2) d = Some t" .
next
  assume r: "resolve_all pfx sep rs toks = Inr (rs2, outs)"
    and "sep \<notin> set t' \<and> sep \<notin> set d \<and> d \<noteq> [] \<and> t' \<noteq> t"
  with resolve_all_keeps[OF r assms]
  show "resolve_designator pfx rs2 (t' @ sep # d) sep = Inl (DesignatorConflictError d t t')"
    by (simp add: resolve_conflict)
next
  assume "process_sets pfx sep expand tc tcab b i sets = Inr b' \<and> resolver_state b = rs"
  with assms process_sets_keeps[of pfx sep expand tc tcab b i sets b' d t]
  show "map_of (designators_and_templates (resolver_state b')) d = Some t" by simp
qed

theorem binding_never_changes_witness:
  "map_of (designators_and_templates
       \<lparr>designators_and_templates = [(''P1'', ''DB9'')], autogenerated_designators = []\<rparr>) ''P1''
     = Some ''DB9''
   \<and> resolve_designator ''__''
        \<lparr>designators_and_templates = [(''P1'', ''DB9'')], autogenerated_designators = []\<rparr>
        ''CAB1:P1'' CHR '':'' = Inl (DesignatorConflictError ''P1'' ''DB9'' ''CAB1'')
   \<and> resolve_all ''__'' CHR '':''
        \<lparr>designators_and_templates = [(''P1'', ''DB9'')], autogenerated_designators = []\<rparr>
        [''DB9:P2'', ''P1'']
     = Inr (\<lparr>designators_and_templates = [(''P1'', ''DB9''), (''P2'', ''DB9'')],
              autogenerated_designators = []\<rparr>, [(''DB9'', ''P2''), (''P1'', ''P1'')])
   \<and> resolve_designator ''__''
        \<lparr>designators_and_templates = [(''P1'', ''DB9''), (''P2'', ''DB9'')],
         autogenerated_designators = []\<rparr>
        ''CAB1:P1'' CHR '':'' = Inl (DesignatorConflictError ''P1'' ''DB9'' ''CAB1'')
   \<and> process_sets ''__'' CHR '':'' expand_spec [(''DB9'', ''nine pins'')] []
        \<lparr>resolver_state =
           \<lparr>designators_and_templates = [(''P1'', ''DB9'')], autogenerated_designators = []\<rparr>,
         the_harness = empty_harness, yaml_connections = [[EList [Tok ''DB9:P2'']]]\<rparr>
        0 [[EList [Tok ''DB9:P2'']]]
     = Inr \<lparr>resolver_state =
              \<lparr>designators_and_templates = [(''P1'', ''DB9''), (''P2'', ''DB9'')],
               autogenerated_designators = []\<rparr>,
            the_harness = \<lparr>connectors = [(''P2'', ''nine pins'')], cables = [], connections = []\<rparr>,
            yaml_connections = [[EList [Ref ''P2'' (PInt 1)]]]\<rparr>
   \<and> map_of [(''P1'', ''DB9''), (''P2'', ''DB9'')] ''P1'' = Some ''DB9''"
proof -
  let ?rs = "\<lparr>designators_and_templates = [(''P1'', ''DB9'')], autogenerated_designators = []\<rparr>"
  let ?rs2 = "\<lparr>designators_and_templates = [(''P1'', ''DB9''), (''P2'', ''DB9'')],
               autogenerated_designators = []\<rparr>"
  let ?b = "\<lparr>resolver_state = ?rs, the_harness = (empty_harness :: string harness),
             yaml_connections = [[EList [Tok ''DB9:P2'']] :: string entry list]\<rparr>"
  let ?b' = "\<lparr>resolver_state = ?rs2,
            the_harness = \<lparr>connectors = [(''P2'', ''nine pins'')], cables = [], connections = []\<rparr>,
            yaml_connections = [[EList [Ref ''P2'' (PInt 1)]] :: string entry list]\<rparr>"
  have h: "map_of (designators_and_templates ?rs) ''P1'' = Some ''DB9''" by simp
  have r: "resolve_all ''__'' CHR '':'' ?rs [''DB9:P2'', ''P1'']
             = Inr (?rs2, [(''DB9'', ''P2''), (''P1'', ''P1'')])"
    by (simp add: resolve_designator_def Let_def)
  have n: "normalize_set ''__'' CHR '':'' expand_spec ?rs [EList [Tok ''DB9:P2'']]
             = Inr (?rs2, 1, [EList [Ref ''P2'' (PInt 1)]])"
    by (simp add: normalize_set_def determine_count_def expand_strings_def
          expand_pin_lists_def expand_entry_def pin_item_def resolve_designator_def Let_def)
  have g: "generate_components [(''DB9'', ''nine pins'')] [] [(''P1'', ''DB9''), (''P2'', ''DB9'')]
             empty_harness [EList [Ref ''P2'' (PInt 1)] :: string entry]
             = Inr \<lparr>connectors = [(''P2'', ''nine pins'')], cables = [], connections = []\<rparr>"
    by (simp add: generate_components_def gen_entry_def gen_item_def entry_items_def
          check_type_def alternate_type_def add_connector_def empty_harness_def)
  have c: "connect_components
             \<lparr>connectors = [(''P2'', ''nine pins'')], cables = [], connections = []\<rparr>
             (zip_star [[(''P2'', PInt 1)]])
           = \<lparr>connectors = [(''P2'', ''nine pins'')], cables = [], connections = []\<rparr>"
    by (simp add: connect_components_eq cable_positions_def zip_star_def)
  have p: "process_sets ''__'' CHR '':'' expand_spec [(''DB9'', ''nine pins'')] [] ?b 0
             [[EList [Tok ''DB9:P2'']]] = Inr ?b'"
    by (simp add: process_set_def n g c rows_of_def entry_items_def item_ref_def)
  have k: "CHR '':'' \<notin> set ''CAB1'' \<and> CHR '':'' \<notin> set ''P1'' \<and> ''P1'' \<noteq> [] \<and> ''CAB1'' \<noteq> ''DB9''"
    by simp
  note inst = binding_never_changes[OF h, of "CHR '':''" "''CAB1''" "''__''" "''DB9:P2''" ?rs2
         "(''DB9'', ''P2'')" "[''DB9:P2'', ''P1'']" ?rs2 "[(''DB9'', ''P2''), (''P1'', ''P1'')]"
         expand_spec "[(''DB9'', ''nine pins'')]" "[]" ?b 0 "[[EList [Tok ''DB9:P2'']]]" ?b']
  from inst h r k p show ?thesis by simp
qed

section \<open>The resolutions of a build as one run\<close>

lemma resolve_all_append:
  "resolve_all pfx sep rs xs = Inr (rs1, o1) \<Longrightarrow> resolve_all pfx sep rs1 ys = Inr (rs2, o2) \<Longrightarrow>
     resolve_all pfx sep rs (xs @ ys) = Inr (rs2, o1 @ o2)"
proof (induction xs arbitrary: rs o1)
  case Nil
  then show ?case by simp
next
  case (Cons x xs)
  from Cons.prems(1) obtain rsm r o1' where
    a: "resolve_designator pfx rs x sep = Inr (rsm, r)"
    and b: "resolve_all pfx sep rsm xs = Inr (rs1, o1')"
    and c: "o1 = r # o1'"
    by (auto split: sum.splits prod.splits)
  from Cons.IH[OF b Cons.prems(2)] a c show ?case by simp
qed

lemma item_tokens_simps:
  "item_tokens [] = []"
  "item_tokens (Tok s # its) = s # item_tokens its"
  "item_tokens (Ref d p # its) = item_tokens its"
  by (simp_all add: item_tokens_def)

lemma item_tokens_Tok: "item_tokens (map Tok xs) = xs"
  by (induction xs) (simp_all add: item_tokens_simps)

lemma resolve_items_run:
  "resolve_items pfx sep rs its = Inr (rs1, its') \<Longrightarrow>
     \<exists>outs. resolve_all pfx sep rs (item_tokens its) = Inr (rs1, outs)
          \<and> its' = map Tok (map snd outs)"
proof (induction pfx sep rs its arbitrary: its' rule: resolve_items.induct)
  case (1 pfx sep rs)
  then show ?case by (simp add: item_tokens_simps)
next
  case (2 pfx sep rs s its)
  from "2.prems" obtain rsm t d its2 where
    step: "resolve_designator pfx rs s sep = Inr (rsm, t, d)"
    and rest: "resolve_items pfx sep rsm its = Inr (rs1, its2)"
    and out: "its' = Tok d # its2"
    by (auto split: sum.splits prod.splits)
  from "2.IH"[OF step refl refl rest] obtain outs where
    o1: "resolve_all pfx sep rsm (item_tokens its) = Inr (rs1, outs)"
    and o2: "its2 = map Tok (map snd outs)" by blast
  have a: "resolve_all pfx sep rs (item_tokens (Tok s # its)) = Inr (rs1, (t, d) # outs)"
    unfolding item_tokens_simps using step o1 by simp
  have b: "its' = map Tok (map snd ((t, d) # outs))"
    unfolding out o2 by simp
  from a b show ?case by (intro exI[of _ "(t, d) # outs"] conjI)
next
  case (3 pfx sep rs d p its)
  then show ?case by simp
qed

lemma row_designators_refs:
  "row_designators (EList its :: 'v entry) (EList (map (\<lambda>d. Ref d (PInt 1)) ds)) = ds"
  "row_designators (EStr s :: 'v entry) (EList (map (\<lambda>d. Ref d (PInt 1)) ds)) = ds"
  by (simp_all add: row_designators_def entry_items_def item_name_def comp_def)

lemma row_designators_dict:
  "ps \<noteq> [] \<Longrightarrow> row_designators (EDict kvs) (EList (map (Ref d) ps)) = [d]"
  by (cases ps) (simp_all add: row_designators_def entry_items_def item_name_def)

lemma resolve_entries_run:
  "resolve_entries pfx sep rs cs1 = Inr (rs1, cs2) \<Longrightarrow>
   expand_pin_lists expand cs2 = Inr cs3 \<Longrightarrow>
   (\<forall>e\<in>set cs1. \<forall>k v rest. e = EDict ((k, v) # rest) \<longrightarrow> expand v \<noteq> []) \<Longrightarrow>
   (\<forall>e\<in>set cs1. \<forall>s. e \<noteq> EStr s) \<Longrightarrow>
   \<exists>outs. resolve_all pfx sep rs (concat (map entry_tokens cs1)) = Inr (rs1, outs)
        \<and> map snd outs = concat (map2 row_designators cs1 cs3)"
proof (induction pfx sep rs cs1 arbitrary: cs2 cs3 rule: resolve_entries.induct)
  case (1 pfx sep rs)
  then show ?case by (simp add: expand_pin_lists_def)
next
  case (2 pfx sep rs its es)
  from "2.prems"(1) obtain rsm its' es' where
    a: "resolve_items pfx sep rs its = Inr (rsm, its')"
    and b: "resolve_entries pfx sep rsm es = Inr (rs1, es')"
    and c: "cs2 = EList its' # es'"
    by (auto split: sum.splits prod.splits)
  from "2.prems"(2) c obtain r rest where
    d: "expand_entry expand (EList its') = Inr r"
    and e: "expand_pin_lists expand es' = Inr rest"
    and f: "cs3 = r # rest"
    unfolding expand_pin_lists_def by (auto simp: those_ok_Cons)
  from resolve_items_run[OF a] obtain o1 where
    o1: "resolve_all pfx sep rs (item_tokens its) = Inr (rsm, o1)"
    and i': "its' = map Tok (map snd o1)" by blast
  define ds where "ds = map snd o1"
  from d i' have "expand_entry expand (EList (map Tok ds) :: 'a entry) = Inr r"
    by (simp add: ds_def)
  then have r: "r = EList (map (\<lambda>d. Ref d (PInt 1)) ds)"
    by (simp add: expand_entry_def those_ok_pin_items)
  from "2.prems"(3) have h: "\<forall>e\<in>set es. \<forall>k v rest. e = EDict ((k, v) # rest) \<longrightarrow> expand v \<noteq> []"
    by simp
  from "2.prems"(4) have g: "\<forall>e\<in>set es. \<forall>s. e \<noteq> EStr s" by simp
  from "2.IH"[OF a refl b e h g] obtain o2 where
    o2: "resolve_all pfx sep rsm (concat (map entry_tokens es)) = Inr (rs1, o2)"
    and d2: "map snd o2 = concat (map2 row_designators es rest)" by blast
  have t: "concat (map entry_tokens (EList its # es)) = item_tokens its @ concat (map entry_tokens es)"
    by (simp add: entry_tokens_def)
  have x: "resolve_all pfx sep rs (concat (map entry_tokens (EList its # es))) = Inr (rs1, o1 @ o2)"
    unfolding t by (rule resolve_all_append[OF o1 o2])
  have "map snd (o1 @ o2) = ds @ map snd o2" by (simp add: ds_def)
  also have "\<dots> = concat (map2 row_designators (EList its # es) cs3)"
    unfolding f r using d2 by (simp add: row_designators_refs)
  finally have y: "map snd (o1 @ o2) = concat (map2 row_designators (EList its # es) cs3)" .
  from x y show ?case by (intro exI[of _ "o1 @ o2"] conjI)
next
  case (3 pfx sep rs es)
  then show ?case by simp
next
  case (4 pfx sep rs key val kvs es)
  from "4.prems"(1) obtain rsm t d es' where
    a: "resolve_designator pfx rs key sep = Inr (rsm, t, d)"
    and b: "resolve_entries pfx sep rsm es = Inr (rs1, es')"
    and c: "cs2 = EDict [(d, val)] # es'"
    by (auto split: sum.splits prod.splits)
  from "4.prems"(2) c obtain r rest where
    dd: "expand_entry expand (EDict [(d, val)]) = Inr r"
    and e: "expand_pin_lists expand es' = Inr rest"
    and f: "cs3 = r # rest"
    unfolding expand_pin_lists_def by (auto simp: those_ok_Cons)
  from dd have r: "r = EList (map (Ref d) (expand val))" by (simp add: expand_entry_def)
  from "4.prems"(3) have ne: "expand val \<noteq> []" by simp
  from "4.prems"(3) have h: "\<forall>e\<in>set es. \<forall>k v rest. e = EDict ((k, v) # rest) \<longrightarrow> expand v \<noteq> []"
    by simp
  from "4.prems"(4) have g: "\<forall>e\<in>set es. \<forall>s. e \<noteq> EStr s" by simp
  from "4.IH"[OF a refl refl b e h g] obtain o2 where
    o2: "resolve_all pfx sep rsm (concat (map entry_tokens es)) = Inr (rs1, o2)"
    and d2: "map snd o2 = concat (map2 row_designators es rest)" by blast
  have x: "resolve_all pfx sep rs (concat (map entry_tokens (EDict ((key, val) # kvs) # es)))
             = Inr (rs1, (t, d) # o2)"
    using a o2 by (simp add: entry_tokens_def)
  have y: "map snd ((t, d) # o2)
             = concat (map2 row_designators (EDict ((key, val) # kvs) # es) cs3)"
    unfolding f r using d2 by (simp add: row_designators_dict[OF ne])
  from x y show ?case by (intro exI[of _ "(t, d) # o2"] conjI)
next
  case (5 pfx sep rs s es)
  from "5.prems"(4) show ?case by simp
qed

lemma expand_strings_no_str: "\<forall>e\<in>set (expand_strings n cs). \<forall>s. e \<noteq> EStr s"
  by (auto simp: expand_strings_def split: entry.splits)

lemma expand_strings_dict:
  "EDict kvs \<in> set (expand_strings n cs) \<Longrightarrow> EDict kvs \<in> set cs"
  by (auto simp: expand_strings_def split: entry.splits)

lemma row_designators_expand_strings:
  "map2 row_designators (expand_strings n cs) cs3 = map2 row_designators cs cs3"
proof -
  have "row_designators (case e of EStr s \<Rightarrow> EList (replicate n (Tok s)) | _ \<Rightarrow> e) r
          = row_designators e r" for e :: "'a entry" and r :: "'a entry"
    by (cases e) (simp_all add: row_designators_def)
  then show ?thesis by (simp add: expand_strings_def zip_map1 case_prod_beta)
qed

lemma normalize_set_run:
  assumes "normalize_set pfx sep expand rs cs = Inr (rs1, n, cs3)"
  shows "\<exists>outs. resolve_all pfx sep rs (set_tokens n cs) = Inr (rs1, outs)
            \<and> map snd outs = set_designators cs cs3"
proof -
  from normalize_set_parts[OF assms] obtain cs2 where
    d: "determine_count expand cs = Inr n"
    and r: "resolve_entries pfx sep rs (expand_strings n cs) = Inr (rs1, cs2)"
    and e: "expand_pin_lists expand cs2 = Inr cs3" by blast
  from determine_count_candidates[OF d] obtain cc where
    cc: "connectioncount expand cs = Inr cc" and n0: "n \<noteq> 0" and all: "\<forall>c\<in>set cc. c = n"
    by blast
  have dict: "\<forall>e\<in>set (expand_strings n cs). \<forall>k v rest. e = EDict ((k, v) # rest) \<longrightarrow> expand v \<noteq> []"
  proof (intro ballI allI impI)
    fix e k v rest
    assume "e \<in> set (expand_strings n cs)" "e = EDict ((k, v) # rest)"
    then have "EDict ((k, v) # rest) \<in> set cs" by (simp add: expand_strings_dict)
    from connectioncount_mem[OF cc this] all have "length (expand v) = n" by simp
    with n0 show "expand v \<noteq> []" by auto
  qed
  from resolve_entries_run[OF r e dict expand_strings_no_str] obtain outs where
    "resolve_all pfx sep rs (concat (map entry_tokens (expand_strings n cs))) = Inr (rs1, outs)"
    "map snd outs = concat (map2 row_designators (expand_strings n cs) cs3)" by blast
  then have "resolve_all pfx sep rs (set_tokens n cs) = Inr (rs1, outs)
            \<and> map snd outs = set_designators cs cs3"
    unfolding set_tokens_def set_designators_def row_designators_expand_strings by simp
  then show ?thesis ..
qed

lemma build_tokens_Cons:
  "determine_count expand cs = Inr n \<Longrightarrow>
     build_tokens expand (cs # rest) = set_tokens n cs @ build_tokens expand rest"
  by (simp add: build_tokens_def)

lemma process_sets_run:
  "process_sets pfx sep expand tc tcab b i sets = Inr b' \<Longrightarrow>
   i + length sets \<le> length (yaml_connections b) \<Longrightarrow>
     \<exists>outs. resolve_all pfx sep (resolver_state b) (build_tokens expand sets)
               = Inr (resolver_state b', outs)
          \<and> map snd outs = build_designators sets (drop i (yaml_connections b'))"
proof (induction sets arbitrary: b i)
  case Nil
  then show ?case by (simp add: build_tokens_def build_designators_def)
next
  case (Cons cs rest)
  from Cons.prems(1) obtain rs1 h1 cs3 where
    p: "process_set pfx sep expand tc tcab (resolver_state b, the_harness b) cs = Inr (rs1, h1, cs3)"
    and r: "process_sets pfx sep expand tc tcab
              \<lparr>resolver_state = rs1, the_harness = h1,
               yaml_connections = (yaml_connections b)[i := cs3]\<rparr> (Suc i) rest = Inr b'"
    by (auto split: sum.splits prod.splits)
  let ?b2 = "\<lparr>resolver_state = rs1, the_harness = h1,
              yaml_connections = (yaml_connections b)[i := cs3]\<rparr>"
  from Cons.prems(2) have le: "Suc i + length rest \<le> length (yaml_connections ?b2)" by simp
  from Cons.prems(2) have ilt: "i < length (yaml_connections b)" by simp
  from process_sets_yaml[OF r le]
  have len: "length (yaml_connections b') = length (yaml_connections b)"
    and old: "\<forall>j<Suc i. yaml_connections b' ! j = (yaml_connections b)[i := cs3] ! j"
    by simp_all
  from old ilt have at_i: "yaml_connections b' ! i = cs3" by simp
  from ilt len have dr: "drop i (yaml_connections b') = cs3 # drop (Suc i) (yaml_connections b')"
    using Cons_nth_drop_Suc[of i "yaml_connections b'"] at_i by simp
  from process_set_normalize[OF p] obtain n where
    n: "normalize_set pfx sep expand (resolver_state b) cs = Inr (rs1, n, cs3)" by auto
  from normalize_set_parts[OF n] have dc: "determine_count expand cs = Inr n" by blast
  from normalize_set_run[OF n] obtain o1 where
    o1: "resolve_all pfx sep (resolver_state b) (set_tokens n cs) = Inr (rs1, o1)"
    and d1: "map snd o1 = set_designators cs cs3" by blast
  from Cons.IH[OF r le] obtain o2 where
    o2: "resolve_all pfx sep rs1 (build_tokens expand rest) = Inr (resolver_state b', o2)"
    and d2: "map snd o2 = build_designators rest (drop (Suc i) (yaml_connections b'))" by auto
  have x: "resolve_all pfx sep (resolver_state b) (build_tokens expand (cs # rest))
             = Inr (resolver_state b', o1 @ o2)"
    unfolding build_tokens_Cons[OF dc] by (rule resolve_all_append[OF o1 o2])
  have y: "map snd (o1 @ o2) = build_designators (cs # rest) (drop i (yaml_connections b'))"
    unfolding dr using d1 d2 by (simp add: build_designators_def)
  from x y show ?case by (intro exI[of _ "o1 @ o2"] conjI)
qed

lemma parse_run:
  assumes "parse pfx sep expand tc tcab sets = Inr (b, bom)"
  shows "\<exists>outs. resolve_all pfx sep empty_resolver (build_tokens expand sets)
               = Inr (resolver_state b, outs)
          \<and> map snd outs = build_designators sets (yaml_connections b)"
proof -
  let ?b0 = "\<lparr>resolver_state = empty_resolver, the_harness = (empty_harness :: 'a harness),
              yaml_connections = sets\<rparr>"
  from assms have p: "process_sets pfx sep expand tc tcab ?b0 0 sets = Inr b"
    unfolding parse_def by (auto split: sum.splits)
  have le: "0 + length sets \<le> length (yaml_connections ?b0)" by simp
  from process_sets_run[OF p le] show ?thesis by simp
qed

lemma filter_zip_map_snd:
  "map snd (filter (\<lambda>p. fst p = X) (zip xs (map f ys)))
     = map f (map snd (filter (\<lambda>p. fst p = X) (zip xs ys)))"
proof (induction xs arbitrary: ys)
  case Nil
  then show ?case by simp
next
  case (Cons x xs)
  then show ?case by (cases ys) simp_all
qed

lemma parse_autogenerated:
  assumes "parse pfx sep expand tc tcab sets = Inr (b, bom)"
  shows "length (build_designators sets (yaml_connections b)) = length (build_tokens expand sets)
       \<and> map snd (filter (\<lambda>p. fst p = T @ [sep])
            (zip (build_tokens expand sets) (build_designators sets (yaml_connections b))))
           = map (auto_name pfx T) [1..<Suc (count_list (build_tokens expand sets) (T @ [sep]))]"
proof -
  from parse_run[OF assms] obtain outs where
    r: "resolve_all pfx sep empty_resolver (build_tokens expand sets) = Inr (resolver_state b, outs)"
    and d: "map snd outs = build_designators sets (yaml_connections b)" by blast
  have g: "get0 (autogenerated_designators empty_resolver) T = 0"
    by (simp add: empty_resolver_def get0_def)
  from resolve_all_auto[OF r, of T] g
  have a: "map snd (filter (\<lambda>p. fst p = T @ [sep]) (zip (build_tokens expand sets) outs))
           = map (\<lambda>k. (T, auto_name pfx T k)) [1..<Suc (count_list (build_tokens expand sets) (T @ [sep]))]"
    by simp
  from resolve_all_length[OF r] d
  have l: "length (build_designators sets (yaml_connections b)) = length (build_tokens expand sets)"
    by (metis length_map)
  have "map snd (filter (\<lambda>p. fst p = T @ [sep])
            (zip (build_tokens expand sets) (map snd outs)))
        = map snd (map snd (filter (\<lambda>p. fst p = T @ [sep]) (zip (build_tokens expand sets) outs)))"
    by (rule filter_zip_map_snd)
  also have "\<dots> = map (auto_name pfx T) [1..<Suc (count_list (build_tokens expand sets) (T @ [sep]))]"
    unfolding a by (simp add: comp_def)
  finally show ?thesis using l unfolding d by simp
qed

lemma two_cables_build:
  "parse ''__'' CHR '':'' expand_spec [(''DB9'', ''nine pins'')] [(''CAB1'', ''three wires'')]
      [[EList [Tok ''CAB1:'']], [EList [Tok ''CAB1:'']]]
   = Inr (\<lparr>resolver_state =
            \<lparr>designators_and_templates = [(''__CAB1_1'', ''CAB1''), (''__CAB1_2'', ''CAB1'')],
             autogenerated_designators = [(''CAB1'', 2)]\<rparr>,
           the_harness =
            \<lparr>connectors = [],
             cables = [(''__CAB1_1'', ''three wires''), (''__CAB1_2'', ''three wires'')],
             connections = [Connection None (''__CAB1_1'', PInt 1) None,
                            Connection None (''__CAB1_2'', PInt 1) None]\<rparr>,
           yaml_connections = [[EList [Ref ''__CAB1_1'' (PInt 1)]], [EList [Ref ''__CAB1_2'' (PInt 1)]]]\<rparr>,
          [(''three wires'', 2, [''__CAB1_1'', ''__CAB1_2''])])"
proof -
  let ?rs1 = "\<lparr>designators_and_templates = [(''__CAB1_1'', ''CAB1'')],
               autogenerated_designators = [(''CAB1'', Suc 0)]\<rparr>"
  let ?rs2 = "\<lparr>designators_and_templates = [(''__CAB1_1'', ''CAB1''), (''__CAB1_2'', ''CAB1'')],
               autogenerated_designators = [(''CAB1'', 2)]\<rparr>"
  let ?h1 = "\<lparr>connectors = [], cables = [(''__CAB1_1'', ''three wires'')],
              connections = [Connection None (''__CAB1_1'', PInt 1) None]\<rparr>"
  let ?h2 = "\<lparr>connectors = [],
             cables = [(''__CAB1_1'', ''three wires''), (''__CAB1_2'', ''three wires'')],
             connections = [Connection None (''__CAB1_1'', PInt 1) None,
                            Connection None (''__CAB1_2'', PInt 1) None]\<rparr>"
  have n1: "normalize_set ''__'' CHR '':'' expand_spec empty_resolver [EList [Tok ''CAB1:'']]
              = Inr (?rs1, 1, [EList [Ref ''__CAB1_1'' (PInt 1)]])"
    by (simp add: normalize_set_def determine_count_def expand_strings_def
          expand_pin_lists_def expand_entry_def pin_item_def resolve_designator_def
          empty_resolver_def Let_def get0_def auto_name_def str_nat.simps digit_char_def)
  have n2: "normalize_set ''__'' CHR '':'' expand_spec ?rs1 [EList [Tok ''CAB1:'']]
              = Inr (?rs2, 1, [EList [Ref ''__CAB1_2'' (PInt 1)]])"
    by (simp add: normalize_set_def determine_count_def expand_strings_def
          expand_pin_lists_def expand_entry_def pin_item_def resolve_designator_def
          Let_def get0_def auto_name_def str_nat.simps digit_char_def)
  have p1: "process_set ''__'' CHR '':'' expand_spec [(''DB9'', ''nine pins'')]
              [(''CAB1'', ''three wires'')] (empty_resolver, empty_harness) [EList [Tok ''CAB1:'']]
              = Inr (?rs1, ?h1, [EList [Ref ''__CAB1_1'' (PInt 1)]])"
    unfolding process_set_def fst_conv snd_conv n1
    by (simp add: generate_components_def gen_entry_def gen_item_def entry_items_def
          check_type_def alternate_type_def add_cable_def empty_harness_def
          rows_of_def item_ref_def zip_star_def connect_components_eq cable_positions_def
          connection_at_def)
  have p2: "process_set ''__'' CHR '':'' expand_spec [(''DB9'', ''nine pins'')]
              [(''CAB1'', ''three wires'')] (?rs1, ?h1) [EList [Tok ''CAB1:'']]
              = Inr (?rs2, ?h2, [EList [Ref ''__CAB1_2'' (PInt 1)]])"
    unfolding process_set_def fst_conv snd_conv n2
    by (simp add: generate_components_def gen_entry_def gen_item_def entry_items_def
          check_type_def alternate_type_def add_cable_def
          rows_of_def item_ref_def zip_star_def connect_components_eq cable_positions_def
          connection_at_def)
  show ?thesis
    unfolding parse_def by (simp add: p1 p2 populate_bom_def)
qed


section \<open>Claims about the generated designators\<close>

text \<open>
  A generated designator can be a name the user has chosen: after \<open>"CAB1:__CAB1_1"\<close>,
  the token \<open>"CAB1:"\<close> generates \<open>__CAB1_1\<close> again, for the same instance.
\<close>

theorem autogenerated_collides_with_user_name_counterexample:
  "resolve_all ''__'' CHR '':'' empty_resolver [''CAB1:__CAB1_1'', ''CAB1:'']
   = Inr (\<lparr>designators_and_templates = [(''__CAB1_1'', ''CAB1'')],
           autogenerated_designators = [(''CAB1'', 1)]\<rparr>,
          [(''CAB1'', ''__CAB1_1''), (''CAB1'', ''__CAB1_1'')])"
  by (simp add: resolve_designator_def empty_resolver_def Let_def get0_def auto_name_def
        str_nat.simps digit_char_def)


text \<open>
  Claim C7, amended. The designators generated for the template \<open>T\<close> are, in the order
  of generation, \<open>pfx @ T @ "_" @ str k\<close> for \<open>k = 1, 2, ...\<close> up to the number of tokens
  \<open>T:\<close>: in every run of resolutions that starts from the empty dictionaries, and in
  every build that does not fail, for the tokens of all its connection sets and the
  designators written into the normalised sets. These names are pairwise distinct, and
  each starts with the reserved prefix (so it differs from every name that does not).
\<close>

theorem autogenerated_designators_sequence:
  "(resolve_all pfx sep empty_resolver toks = Inr (rs1, outs) \<longrightarrow>
      map snd (filter (\<lambda>p. fst p = T @ [sep]) (zip toks outs))
        = map (\<lambda>k. (T, auto_name pfx T k)) [1..<Suc (count_list toks (T @ [sep]))])
   \<and> (parse pfx sep expand tc tcab sets = Inr (b, bom) \<longrightarrow>
        length (build_designators sets (yaml_connections b)) = length (build_tokens expand sets)
      \<and> map snd (filter (\<lambda>p. fst p = T @ [sep])
            (zip (build_tokens expand sets) (build_designators sets (yaml_connections b))))
          = map (auto_name pfx T) [1..<Suc (count_list (build_tokens expand sets) (T @ [sep]))])
   \<and> distinct (map (auto_name pfx T) [1..<Suc m])
   \<and> list_all (prefix pfx) (map (auto_name pfx T) [1..<Suc m])"
proof (intro conjI impI)
  assume r: "resolve_all pfx sep empty_resolver toks = Inr (rs1, outs)"
  have g: "get0 (autogenerated_designators empty_resolver) T = 0"
    by (simp add: empty_resolver_def get0_def)
  from resolve_all_auto[OF r, of T] g
  show "map snd (filter (\<lambda>p. fst p = T @ [sep]) (zip toks outs))
           = map (\<lambda>k. (T, auto_name pfx T k)) [1..<Suc (count_list toks (T @ [sep]))]"
    by simp
next
  assume p: "parse pfx sep expand tc tcab sets = Inr (b, bom)"
  from parse_autogenerated[OF p, of T]
  show "length (build_designators sets (yaml_connections b)) = length (build_tokens expand sets)"
    and "map snd (filter (\<lambda>p. fst p = T @ [sep])
            (zip (build_tokens expand sets) (build_designators sets (yaml_connections b))))
          = map (auto_name pfx T) [1..<Suc (count_list (build_tokens expand sets) (T @ [sep]))]"
    by simp_all
next
  show "distinct (map (auto_name pfx T) [1..<Suc m])" by (rule distinct_auto_names)
next
  show "list_all (prefix pfx) (map (auto_name pfx T) [1..<Suc m])"
    by (simp add: list_all_iff auto_name_prefix)
qed

theorem autogenerated_designators_sequence_witness:
  "resolve_all ''__'' CHR '':'' empty_resolver [''CAB1:'', ''DB9:P1'', ''CAB1:'']
     = Inr (\<lparr>designators_and_templates =
               [(''__CAB1_1'', ''CAB1''), (''P1'', ''DB9''), (''__CAB1_2'', ''CAB1'')],
             autogenerated_designators = [(''CAB1'', 2)]\<rparr>,
            [(''CAB1'', ''__CAB1_1''), (''DB9'', ''P1''), (''CAB1'', ''__CAB1_2'')])
   \<and> map snd (filter (\<lambda>p. fst p = ''CAB1'' @ [CHR '':''])
        (zip [''CAB1:'', ''DB9:P1'', ''CAB1:'']
             [(''CAB1'', ''__CAB1_1''), (''DB9'', ''P1''), (''CAB1'', ''__CAB1_2'')]))
     = map (\<lambda>k. (''CAB1'', auto_name ''__'' ''CAB1'' k))
         [1..<Suc (count_list [''CAB1:'', ''DB9:P1'', ''CAB1:''] (''CAB1'' @ [CHR '':'']))]
   \<and> build_tokens expand_spec [[EList [Tok ''CAB1:'']], [EList [Tok ''CAB1:'']]]
     = [''CAB1:'', ''CAB1:'']
   \<and> map_sum id (\<lambda>r. build_designators [[EList [Tok ''CAB1:'']], [EList [Tok ''CAB1:'']]]
                         (yaml_connections (fst r)))
       (parse ''__'' CHR '':'' expand_spec [(''DB9'', ''nine pins'')] [(''CAB1'', ''three wires'')]
          [[EList [Tok ''CAB1:'']], [EList [Tok ''CAB1:'']]])
     = Inr [''__CAB1_1'', ''__CAB1_2'']
   \<and> [''__CAB1_1'', ''__CAB1_2'']
     = map (auto_name ''__'' ''CAB1'')
         [1..<Suc (count_list (build_tokens expand_spec
                     [[EList [Tok ''CAB1:'']], [EList [Tok ''CAB1:'']]]) (''CAB1'' @ [CHR '':'']))]"
proof -
  let ?sets = "[[EList [Tok ''CAB1:'']], [EList [Tok ''CAB1:'']]] :: string entry list list"
  let ?B = "\<lparr>resolver_state =
            \<lparr>designators_and_templates = [(''__CAB1_1'', ''CAB1''), (''__CAB1_2'', ''CAB1'')],
             autogenerated_designators = [(''CAB1'', 2)]\<rparr>,
           the_harness =
            \<lparr>connectors = [],
             cables = [(''__CAB1_1'', ''three wires''), (''__CAB1_2'', ''three wires'')],
             connections = [Connection None (''__CAB1_1'', PInt 1) None,
                            Connection None (''__CAB1_2'', PInt 1) None]\<rparr>,
           yaml_connections = [[EList [Ref ''__CAB1_1'' (PInt 1)]], [EList [Ref ''__CAB1_2'' (PInt 1)]]]\<rparr>"
  have h: "resolve_all ''__'' CHR '':'' empty_resolver [''CAB1:'', ''DB9:P1'', ''CAB1:'']
     = Inr (\<lparr>designators_and_templates =
               [(''__CAB1_1'', ''CAB1''), (''P1'', ''DB9''), (''__CAB1_2'', ''CAB1'')],
             autogenerated_designators = [(''CAB1'', 2)]\<rparr>,
            [(''CAB1'', ''__CAB1_1''), (''DB9'', ''P1''), (''CAB1'', ''__CAB1_2'')])"
    by (simp add: resolve_designator_def empty_resolver_def Let_def get0_def auto_name_def
          str_nat.simps digit_char_def)
  note inst = autogenerated_designators_sequence[of "''__''" "CHR '':''"
      "[''CAB1:'', ''DB9:P1'', ''CAB1:'']" _ _ "''CAB1''" expand_spec
      "[(''DB9'', ''nine pins'')]" "[(''CAB1'', ''three wires'')]" ?sets ?B
      "[(''three wires'', 2, [''__CAB1_1'', ''__CAB1_2''])]"]
  from conjunct1[OF inst] h
  have c1: "map snd (filter (\<lambda>p. fst p = ''CAB1'' @ [CHR '':''])
        (zip [''CAB1:'', ''DB9:P1'', ''CAB1:'']
             [(''CAB1'', ''__CAB1_1''), (''DB9'', ''P1''), (''CAB1'', ''__CAB1_2'')]))
     = map (\<lambda>k. (''CAB1'', auto_name ''__'' ''CAB1'' k))
         [1..<Suc (count_list [''CAB1:'', ''DB9:P1'', ''CAB1:''] (''CAB1'' @ [CHR '':'']))]"
    by (rule mp)
  have bt: "build_tokens expand_spec ?sets = [''CAB1:'', ''CAB1:'']"
    by (simp add: build_tokens_def determine_count_def set_tokens_def expand_strings_def
          entry_tokens_def item_tokens_def)
  have bd: "build_designators ?sets (yaml_connections ?B) = [''__CAB1_1'', ''__CAB1_2'']"
    by (simp add: build_designators_def set_designators_def row_designators_def entry_items_def
          item_name_def)
  from conjunct1[OF conjunct2[OF inst]] two_cables_build
  have c2: "length (build_designators ?sets (yaml_connections ?B)) = length (build_tokens expand_spec ?sets)
      \<and> map snd (filter (\<lambda>p. fst p = ''CAB1'' @ [CHR '':''])
            (zip (build_tokens expand_spec ?sets) (build_designators ?sets (yaml_connections ?B))))
          = map (auto_name ''__'' ''CAB1'')
              [1..<Suc (count_list (build_tokens expand_spec ?sets) (''CAB1'' @ [CHR '':'']))]"
    by (rule mp)
  from c2 have c3: "[''__CAB1_1'', ''__CAB1_2'']
     = map (auto_name ''__'' ''CAB1'')
         [1..<Suc (count_list (build_tokens expand_spec ?sets) (''CAB1'' @ [CHR '':'']))]"
    unfolding bd by (simp add: bt)
  have pr: "map_sum id (\<lambda>r. build_designators ?sets (yaml_connections (fst r)))
       (parse ''__'' CHR '':'' expand_spec [(''DB9'', ''nine pins'')] [(''CAB1'', ''three wires'')] ?sets)
     = Inr [''__CAB1_1'', ''__CAB1_2'']"
    unfolding two_cables_build using bd by simp
  show ?thesis by (rule conjI[OF h conjI[OF c1 conjI[OF bt conjI[OF pr c3]]]])
qed


section \<open>Properties of the generation of components\<close>

lemma check_type_Inr:
  "check_type ex d t a = Inr ex' \<longleftrightarrow> ex' = Some a \<and> (ex = None \<or> ex = Some a)"
  by (cases ex) (auto simp: check_type_def)

lemma check_type_mismatch:
  "a \<noteq> e \<Longrightarrow> check_type (Some e) d t a = Inl (TypeAlternationViolationError e d t a)"
  by (simp add: check_type_def)

lemma check_bind_Inr:
  "(case check_type ex d t a of Inl e \<Rightarrow> Inl e | Inr x \<Rightarrow> Inr (h1, x)) = Inr (h', ex')
     \<longleftrightarrow> h' = h1 \<and> ex' = Some a \<and> (ex = None \<or> ex = Some a)"
proof (cases "check_type ex d t a")
  case (Inl e)
  with check_type_Inr[of ex d t a] show ?thesis by auto
next
  case (Inr x)
  with check_type_Inr[of ex d t a x] show ?thesis by auto
qed

lemma gen_item_cases:
  assumes "gen_item tc tcab dts (h, ex) it = Inr (h', ex')"
  shows "\<exists>d p t k. it = Ref d p \<and> map_of dts d = Some t \<and> ex' = Some k \<and> (ex = None \<or> ex = Some k)
     \<and> ((k = Connector \<and> d \<in> fst ` set (connectors h) \<and> h' = h)
        \<or> (k = Connector \<and> d \<notin> fst ` set (connectors h)
              \<and> (\<exists>at. map_of tc t = Some at \<and> h' = add_connector h d at))
        \<or> (k = Cable \<and> d \<notin> fst ` set (connectors h) \<and> map_of tc t = None
              \<and> d \<in> fst ` set (cables h) \<and> h' = h)
        \<or> (k = Cable \<and> d \<notin> fst ` set (connectors h) \<and> map_of tc t = None
              \<and> d \<notin> fst ` set (cables h)
              \<and> (\<exists>at. map_of tcab t = Some at \<and> h' = add_cable h d at)))"
proof (cases it)
  case (Tok s)
  with assms show ?thesis by (simp add: gen_item_def)
next
  case (Ref d p)
  show ?thesis
  proof (cases "map_of dts d")
    case None
    with assms Ref show ?thesis by (simp add: gen_item_def)
  next
    case (Some t)
    show ?thesis
    proof (cases "d \<in> fst ` set (connectors h)")
      case True
      with assms Ref Some show ?thesis
        by (simp add: gen_item_def check_bind_Inr)
    next
      case nc: False
      show ?thesis
      proof (cases "map_of tc t")
        case (Some at)
        with assms Ref \<open>map_of dts d = Some t\<close> nc show ?thesis
          by (simp add: gen_item_def check_bind_Inr)
      next
        case None
        show ?thesis
        proof (cases "d \<in> fst ` set (cables h)")
          case True
          with assms Ref \<open>map_of dts d = Some t\<close> nc None show ?thesis
            by (simp add: gen_item_def check_bind_Inr)
        next
          case ncab: False
          show ?thesis
          proof (cases "map_of tcab t")
            case n2: None
            with assms Ref \<open>map_of dts d = Some t\<close> nc None ncab show ?thesis
              by (simp add: gen_item_def)
          next
            case (Some at)
            with assms Ref \<open>map_of dts d = Some t\<close> nc None ncab show ?thesis
              by (simp add: gen_item_def check_bind_Inr)
          qed
        qed
      qed
    qed
  qed
qed

lemma gen_item_mismatch:
  assumes "map_of dts d = Some t" "actual_type tc tcab h t d = Some a" "a \<noteq> e"
  shows "gen_item tc tcab dts (h, Some e) (Ref d p) = Inl (TypeAlternationViolationError e d t a)"
proof (cases "d \<in> fst ` set (connectors h)")
  case True
  with assms show ?thesis by (simp add: gen_item_def actual_type_def check_type_def)
next
  case nc: False
  show ?thesis
  proof (cases "map_of tc t")
    case (Some at)
    with assms nc show ?thesis by (simp add: gen_item_def actual_type_def check_type_def)
  next
    case None
    show ?thesis
    proof (cases "d \<in> fst ` set (cables h)")
      case True
      with assms nc None show ?thesis by (simp add: gen_item_def actual_type_def check_type_def)
    next
      case ncab: False
      show ?thesis
      proof (cases "map_of tcab t")
        case n2: None
        with assms nc None ncab show ?thesis by (simp add: actual_type_def)
      next
        case (Some at)
        with assms nc None ncab show ?thesis
          by (simp add: gen_item_def actual_type_def check_type_def)
      qed
    qed
  qed
qed

lemma connectors_add_connector:
  "fst ` set (connectors (add_connector h d at)) = insert d (fst ` set (connectors h))"
  "cables (add_connector h d at) = cables h"
  by (simp_all add: add_connector_def AList.dom_update)

lemma cables_add_cable:
  "fst ` set (cables (add_cable h d at)) = insert d (fst ` set (cables h))"
  "connectors (add_cable h d at) = connectors h"
  by (simp_all add: add_cable_def AList.dom_update)

lemma settled_add_connector:
  assumes "settled tc dts h d0 k0" "map_of dts d = Some t" "map_of tc t = Some at"
  shows "settled tc dts (add_connector h d at) d0 k0"
proof (cases k0)
  case Connector
  with assms(1) have "d0 \<in> fst ` set (connectors h)"
    by (simp add: settled_def kind_of_def split: if_splits)
  with Connector show ?thesis by (simp add: settled_def kind_of_def connectors_add_connector)
next
  case Cable
  with assms(1) have a: "d0 \<notin> fst ` set (connectors h)" "d0 \<in> fst ` set (cables h)"
    and b: "case map_of dts d0 of None \<Rightarrow> True | Some t \<Rightarrow> map_of tc t = None"
    by (simp_all add: settled_def kind_of_def split: if_splits)
  from b assms(2,3) have "d0 \<noteq> d" by auto
  with a b Cable show ?thesis by (simp add: settled_def kind_of_def connectors_add_connector)
qed

lemma settled_add_cable:
  assumes "settled tc dts h d0 k0"
  shows "settled tc dts (add_cable h d at) d0 k0"
  using assms by (cases k0) (auto simp: settled_def kind_of_def cables_add_cable split: if_splits)

lemma settled_step:
  assumes "gen_item tc tcab dts (h, ex) it = Inr (h', ex')" "settled tc dts h d0 k0"
  shows "settled tc dts h' d0 k0"
proof -
  from gen_item_cases[OF assms(1)] obtain d p t k where
    t: "map_of dts d = Some t"
    and c: "h' = h \<or> (\<exists>at. map_of tc t = Some at \<and> h' = add_connector h d at)
            \<or> (\<exists>at. map_of tcab t = Some at \<and> h' = add_cable h d at)"
    by blast
  from c show ?thesis
  proof (elim disjE exE conjE)
    assume "h' = h" with assms(2) show ?thesis by simp
  next
    fix at assume "map_of tc t = Some at" "h' = add_connector h d at"
    with settled_add_connector[OF assms(2) t] show ?thesis by simp
  next
    fix at assume "h' = add_cable h d at"
    with settled_add_cable[OF assms(2)] show ?thesis by simp
  qed
qed

lemma settled_new:
  assumes "gen_item tc tcab dts (h, ex) it = Inr (h', ex')"
  shows "\<exists>d p k. it = Ref d p \<and> ex' = Some k \<and> (ex = None \<or> ex = Some k) \<and> settled tc dts h' d k"
proof -
  from gen_item_cases[OF assms] obtain d p t k where
    it: "it = Ref d p" and t: "map_of dts d = Some t" and ex: "ex' = Some k" "ex = None \<or> ex = Some k"
    and c: "(k = Connector \<and> d \<in> fst ` set (connectors h) \<and> h' = h)
        \<or> (k = Connector \<and> d \<notin> fst ` set (connectors h)
              \<and> (\<exists>at. map_of tc t = Some at \<and> h' = add_connector h d at))
        \<or> (k = Cable \<and> d \<notin> fst ` set (connectors h) \<and> map_of tc t = None
              \<and> d \<in> fst ` set (cables h) \<and> h' = h)
        \<or> (k = Cable \<and> d \<notin> fst ` set (connectors h) \<and> map_of tc t = None
              \<and> d \<notin> fst ` set (cables h)
              \<and> (\<exists>at. map_of tcab t = Some at \<and> h' = add_cable h d at))"
    by blast
  from c have "settled tc dts h' d k"
  proof (elim disjE exE conjE)
    assume "k = Connector" "d \<in> fst ` set (connectors h)" "h' = h"
    then show ?thesis by (simp add: settled_def kind_of_def)
  next
    fix at assume "k = Connector" "h' = add_connector h d at"
    then show ?thesis by (simp add: settled_def kind_of_def connectors_add_connector)
  next
    assume "k = Cable" "d \<notin> fst ` set (connectors h)" "map_of tc t = None"
      "d \<in> fst ` set (cables h)" "h' = h"
    with t show ?thesis by (simp add: settled_def kind_of_def)
  next
    fix at assume "k = Cable" "d \<notin> fst ` set (connectors h)" "map_of tc t = None"
      "h' = add_cable h d at"
    with t show ?thesis by (simp add: settled_def kind_of_def cables_add_cable)
  qed
  with it ex show ?thesis by blast
qed

lemma gen_items_keep:
  "gen_items tc tcab dts (h, ex) its = Inr (h', ex') \<Longrightarrow> settled tc dts h d0 k0 \<Longrightarrow>
     settled tc dts h' d0 k0"
proof (induction its arbitrary: h ex)
  case Nil
  then show ?case by simp
next
  case (Cons it its)
  from Cons.prems(1) obtain h1 ex1 where
    a: "gen_item tc tcab dts (h, ex) it = Inr (h1, ex1)"
    and b: "gen_items tc tcab dts (h1, ex1) its = Inr (h', ex')"
    by (auto split: sum.splits)
  from settled_step[OF a Cons.prems(2)] have "settled tc dts h1 d0 k0" .
  from Cons.IH[OF b this] show ?case .
qed

lemma gen_items_new:
  "gen_items tc tcab dts (h, ex) its = Inr (h', ex') \<Longrightarrow>
     (its = [] \<and> h' = h \<and> ex' = ex)
   \<or> (\<exists>k. ex' = Some k \<and> (ex = None \<or> ex = Some k)
          \<and> (\<forall>it\<in>set its. \<exists>d p. it = Ref d p \<and> settled tc dts h' d k))"
proof (induction its arbitrary: h ex)
  case Nil
  then show ?case by simp
next
  case (Cons it its)
  from Cons.prems(1) obtain h1 ex1 where
    a: "gen_item tc tcab dts (h, ex) it = Inr (h1, ex1)"
    and b: "gen_items tc tcab dts (h1, ex1) its = Inr (h', ex')"
    by (auto split: sum.splits)
  from settled_new[OF a] obtain d p k where
    it: "it = Ref d p" and ex1: "ex1 = Some k" and ex: "ex = None \<or> ex = Some k"
    and s1: "settled tc dts h1 d k" by blast
  from gen_items_keep[OF b s1] have s: "settled tc dts h' d k" .
  from Cons.IH[OF b]
  have "(its = [] \<and> h' = h1 \<and> ex' = ex1)
      \<or> (\<exists>k'. ex' = Some k' \<and> (ex1 = None \<or> ex1 = Some k')
            \<and> (\<forall>it\<in>set its. \<exists>d p. it = Ref d p \<and> settled tc dts h' d k'))" .
  then have "ex' = Some k \<and> (\<forall>it\<in>set its. \<exists>d p. it = Ref d p \<and> settled tc dts h' d k)"
    using ex1 by auto
  with it s ex have "ex' = Some k \<and> (ex = None \<or> ex = Some k)
          \<and> (\<forall>x\<in>set (it # its). \<exists>d p. x = Ref d p \<and> settled tc dts h' d k)"
    by simp
  then show ?case by blast
qed

lemma alternate_type_Inr:
  "alternate_type ex = Inr ex' \<longleftrightarrow> (\<exists>k. ex = Some k \<and> ex' = Some (other_kind k))"
  by (cases ex; cases "the ex") (auto simp: alternate_type_def other_kind_def split: kind.splits)

lemma gen_entry_parts:
  assumes "gen_entry tc tcab dts (h, ex) entry = Inr (h', ex')"
  shows "\<exists>k. gen_items tc tcab dts (h, ex) (entry_items entry) = Inr (h', Some k)
            \<and> ex' = Some (other_kind k)"
proof -
  from assms obtain h1 ex1 where
    a: "gen_items tc tcab dts (h, ex) (entry_items entry) = Inr (h1, ex1)"
    and b: "alternate_type ex1 = Inr ex'" and c: "h' = h1"
    unfolding gen_entry_def by (auto split: sum.splits)
  from b obtain k where "ex1 = Some k" "ex' = Some (other_kind k)"
    unfolding alternate_type_Inr by blast
  with a c show ?thesis by blast
qed

lemma gen_entry_keep:
  assumes "gen_entry tc tcab dts (h, ex) entry = Inr (h', ex')" "settled tc dts h d0 k0"
  shows "settled tc dts h' d0 k0"
proof -
  from gen_entry_parts[OF assms(1)] obtain k where
    "gen_items tc tcab dts (h, ex) (entry_items entry) = Inr (h', Some k)" by blast
  from gen_items_keep[OF this assms(2)] show ?thesis .
qed

lemma gen_entry_new:
  assumes "gen_entry tc tcab dts (h, ex) entry = Inr (h', ex')"
  shows "\<exists>k. ex' = Some (other_kind k) \<and> (ex = None \<or> ex = Some k)
          \<and> (\<forall>it\<in>set (entry_items entry). \<exists>d p. it = Ref d p \<and> settled tc dts h' d k)"
proof -
  from gen_entry_parts[OF assms] obtain k where
    a: "gen_items tc tcab dts (h, ex) (entry_items entry) = Inr (h', Some k)"
    and b: "ex' = Some (other_kind k)" by blast
  from gen_items_new[OF a]
  have "(ex = None \<or> ex = Some k)
          \<and> (\<forall>it\<in>set (entry_items entry). \<exists>d p. it = Ref d p \<and> settled tc dts h' d k)"
    by auto
  with b show ?thesis by blast
qed

lemma gen_entries_keep:
  "gen_entries tc tcab dts (h, ex) cs = Inr (h', ex') \<Longrightarrow> settled tc dts h d0 k0 \<Longrightarrow>
     settled tc dts h' d0 k0"
proof (induction cs arbitrary: h ex)
  case Nil
  then show ?case by simp
next
  case (Cons entry cs)
  from Cons.prems(1) obtain h1 ex1 where
    a: "gen_entry tc tcab dts (h, ex) entry = Inr (h1, ex1)"
    and b: "gen_entries tc tcab dts (h1, ex1) cs = Inr (h', ex')"
    by (auto split: sum.splits)
  from gen_entry_keep[OF a Cons.prems(2)] have "settled tc dts h1 d0 k0" .
  from Cons.IH[OF b this] show ?case .
qed

lemma other_kind_twice: "other_kind (other_kind k) = k"
  by (cases k) (simp_all add: other_kind_def)

lemma kind_at_Suc: "kind_at k (Suc i) = kind_at (other_kind k) i"
  by (simp add: kind_at_def other_kind_twice)

lemma kind_at_0: "kind_at k 0 = k"
  by (simp add: kind_at_def)

lemma gen_entries_alternate:
  "gen_entries tc tcab dts (h, ex) cs = Inr (h', ex') \<Longrightarrow>
     \<exists>k0. (ex = None \<or> ex = Some k0)
        \<and> (\<forall>i<length cs. \<forall>it\<in>set (entry_items (cs ! i)).
              \<exists>d p. it = Ref d p \<and> settled tc dts h' d (kind_at k0 i))"
proof (induction cs arbitrary: h ex)
  case Nil
  show ?case by (cases ex) auto
next
  case (Cons entry cs)
  from Cons.prems(1) obtain h1 ex1 where
    a: "gen_entry tc tcab dts (h, ex) entry = Inr (h1, ex1)"
    and b: "gen_entries tc tcab dts (h1, ex1) cs = Inr (h', ex')"
    by (auto split: sum.splits)
  from gen_entry_new[OF a] obtain k where
    ex1: "ex1 = Some (other_kind k)" and ex: "ex = None \<or> ex = Some k"
    and here: "\<forall>it\<in>set (entry_items entry). \<exists>d p. it = Ref d p \<and> settled tc dts h1 d k"
    by blast
  from Cons.IH[OF b] ex1
  have rest: "\<forall>i<length cs. \<forall>it\<in>set (entry_items (cs ! i)).
              \<exists>d p. it = Ref d p \<and> settled tc dts h' d (kind_at (other_kind k) i)"
    by auto
  have "\<exists>d p. it = Ref d p \<and> settled tc dts h' d (kind_at k i)"
    if i: "i < length (entry # cs)" and it: "it \<in> set (entry_items ((entry # cs) ! i))" for i it
  proof (cases i)
    case 0
    with it here obtain d p where d: "it = Ref d p" "settled tc dts h1 d k" by auto
    from gen_entries_keep[OF b d(2)] d(1) 0 show ?thesis by (simp add: kind_at_0)
  next
    case (Suc j)
    with i it rest show ?thesis by (simp add: kind_at_Suc)
  qed
  with ex show ?case by blast
qed

lemma gen_items_append:
  "gen_items tc tcab dts st (xs @ ys) =
     (case gen_items tc tcab dts st xs of Inl e \<Rightarrow> Inl e | Inr st1 \<Rightarrow> gen_items tc tcab dts st1 ys)"
  by (induction xs arbitrary: st) (auto split: sum.splits)

lemma gen_entries_append:
  "gen_entries tc tcab dts st (xs @ ys) =
     (case gen_entries tc tcab dts st xs of Inl e \<Rightarrow> Inl e | Inr st1 \<Rightarrow> gen_entries tc tcab dts st1 ys)"
  by (induction xs arbitrary: st) (auto split: sum.splits)

lemma generate_components_alternate:
  assumes "generate_components tc tcab dts h cs = Inr h'"
  shows "\<exists>k0. \<forall>i<length cs. \<forall>it\<in>set (entry_items (cs ! i)).
              \<exists>d p. it = Ref d p \<and> kind_of h' d = Some (kind_at k0 i)"
proof -
  from assms obtain ex' where "gen_entries tc tcab dts (h, None) cs = Inr (h', ex')"
    unfolding generate_components_def by (auto split: sum.splits)
  from gen_entries_alternate[OF this] obtain k0 where
    "\<forall>i<length cs. \<forall>it\<in>set (entry_items (cs ! i)).
              \<exists>d p. it = Ref d p \<and> settled tc dts h' d (kind_at k0 i)" by blast
  then have "\<forall>i<length cs. \<forall>it\<in>set (entry_items (cs ! i)).
              \<exists>d p. it = Ref d p \<and> kind_of h' d = Some (kind_at k0 i)"
    unfolding settled_def by blast
  then show ?thesis ..
qed

lemma generate_components_mismatch:
  assumes pre: "gen_entries tc tcab dts (h, None) pre = Inr (h1, ex1)"
    and items: "entry_items entry = its1 @ Ref d p # its2"
    and before: "gen_items tc tcab dts (h1, ex1) its1 = Inr (h2, Some e)"
    and t: "map_of dts d = Some t"
    and a: "actual_type tc tcab h2 t d = Some a" "a \<noteq> e"
  shows "generate_components tc tcab dts h (pre @ entry # post)
           = Inl (TypeAlternationViolationError e d t a)"
proof -
  from gen_item_mismatch[OF t a]
  have "gen_item tc tcab dts (h2, Some e) (Ref d p) = Inl (TypeAlternationViolationError e d t a)" .
  with before have "gen_items tc tcab dts (h1, ex1) (entry_items entry)
      = Inl (TypeAlternationViolationError e d t a)"
    unfolding items gen_items_append by simp
  then have "gen_entry tc tcab dts (h1, ex1) entry = Inl (TypeAlternationViolationError e d t a)"
    by (simp add: gen_entry_def)
  with pre show ?thesis
    unfolding generate_components_def gen_entries_append by simp
qed

lemma scenario_b_lists:
  "parse pfx CHR '':'' expand [(''DB9'', a0)] [(''CAB1'', a1), (''CAB2'', a2)]
      [[EList [Tok ''CAB1:''], EList [Tok ''CAB2:'']]]
   = Inl (TypeAlternationViolationError Connector (pfx @ ''CAB2_1'') ''CAB2'' Cable)"
proof -
  have n1: "auto_name pfx ''CAB1'' (Suc 0) = pfx @ ''CAB1_1''"
    and n2: "auto_name pfx ''CAB2'' (Suc 0) = pfx @ ''CAB2_1''"
    by (simp_all add: auto_name_def str_nat.simps digit_char_def)
  have nm: "normalize_set pfx CHR '':'' expand empty_resolver
               [EList [Tok ''CAB1:''], EList [Tok ''CAB2:'']]
     = Inr (\<lparr>designators_and_templates =
               [(pfx @ ''CAB1_1'', ''CAB1''), (pfx @ ''CAB2_1'', ''CAB2'')],
             autogenerated_designators = [(''CAB1'', 1), (''CAB2'', 1)]\<rparr>, 1,
            [EList [Ref (pfx @ ''CAB1_1'') (PInt 1)], EList [Ref (pfx @ ''CAB2_1'') (PInt 1)]])"
    by (simp add: normalize_set_def determine_count_def expand_strings_def
        expand_pin_lists_def expand_entry_def pin_item_def resolve_designator_def
        empty_resolver_def Let_def get0_def n1 n2)
  have g: "generate_components [(''DB9'', a0)] [(''CAB1'', a1), (''CAB2'', a2)]
             [(pfx @ ''CAB1_1'', ''CAB1''), (pfx @ ''CAB2_1'', ''CAB2'')] empty_harness
             [EList [Ref (pfx @ ''CAB1_1'') (PInt 1)], EList [Ref (pfx @ ''CAB2_1'') (PInt 1)] :: 'b entry]
     = Inl (TypeAlternationViolationError Connector (pfx @ ''CAB2_1'') ''CAB2'' Cable)"
    by (simp add: generate_components_def gen_entry_def gen_item_def entry_items_def
        check_type_def alternate_type_def add_cable_def empty_harness_def)
  show ?thesis
    unfolding parse_def by (simp add: process_set_def nm g)
qed


section \<open>Claims about the alternation of types\<close>

text \<open>
  The set \<open>["CAB1:", "CAB2:"]\<close> of two strings reveals no connection count: the build
  fails with \<open>MissingConnectionCountError\<close> before any type is checked.
\<close>

theorem two_strings_no_count_counterexample:
  "parse ''__'' CHR '':'' expand_spec [(''DB9'', ''nine pins'')]
      [(''CAB1'', ''three wires''), (''CAB2'', ''two wires'')]
      [[EStr ''CAB1:'', EStr ''CAB2:'']]
   = Inl MissingConnectionCountError"
  by (simp add: parse_def process_set_def normalize_set_def determine_count_def)

text \<open>
  Claim C2, amended. When the components of a connection set are generated without
  error, there is a type \<open>k0\<close> such that every member of the entry at position \<open>i\<close>
  names an instance of type \<open>k0\<close> for even \<open>i\<close> and of the other type for odd \<open>i\<close>.
  The first check of a set accepts either type and fixes the expected type. A member
  whose type differs from the expected type makes the generation fail with
  \<open>TypeAlternationViolationError\<close>, which names the expected type, the designator, its
  template and its type. The set \<open>[["CAB1:"], ["CAB2:"]]\<close> of two cable templates fails
  so, naming the designator generated for the second token.
\<close>

theorem type_alternation:
  "(generate_components tc tcab dts h cs = Inr h' \<longrightarrow>
      (\<exists>k0. \<forall>i<length cs. \<forall>it\<in>set (entry_items (cs ! i)).
              \<exists>d p. it = Ref d p \<and> kind_of h' d = Some (kind_at k0 i)))
   \<and> check_type None d t a = Inr (Some a)
   \<and> (gen_entries tc tcab dts (h, None) pre = Inr (h1, ex1)
        \<and> entry_items entry = its1 @ Ref d p # its2
        \<and> gen_items tc tcab dts (h1, ex1) its1 = Inr (h2, Some e)
        \<and> map_of dts d = Some t \<and> actual_type tc tcab h2 t d = Some a \<and> a \<noteq> e \<longrightarrow>
      generate_components tc tcab dts h (pre @ entry # post)
        = Inl (TypeAlternationViolationError e d t a))
   \<and> parse pfx CHR '':'' expand [(''DB9'', a0)] [(''CAB1'', a1), (''CAB2'', a2)]
        [[EList [Tok ''CAB1:''], EList [Tok ''CAB2:'']]]
      = Inl (TypeAlternationViolationError Connector (pfx @ ''CAB2_1'') ''CAB2'' Cable)"
proof (intro conjI impI)
  assume "generate_components tc tcab dts h cs = Inr h'"
  then show "\<exists>k0. \<forall>i<length cs. \<forall>it\<in>set (entry_items (cs ! i)).
              \<exists>d p. it = Ref d p \<and> kind_of h' d = Some (kind_at k0 i)"
    by (rule generate_components_alternate)
next
  show "check_type None d t a = Inr (Some a)" by (simp add: check_type_def)
next
  assume "gen_entries tc tcab dts (h, None) pre = Inr (h1, ex1)
        \<and> entry_items entry = its1 @ Ref d p # its2
        \<and> gen_items tc tcab dts (h1, ex1) its1 = Inr (h2, Some e)
        \<and> map_of dts d = Some t \<and> actual_type tc tcab h2 t d = Some a \<and> a \<noteq> e"
  then show "generate_components tc tcab dts h (pre @ entry # post)
        = Inl (TypeAlternationViolationError e d t a)"
    using generate_components_mismatch by blast
next
  show "parse pfx CHR '':'' expand [(''DB9'', a0)] [(''CAB1'', a1), (''CAB2'', a2)]
        [[EList [Tok ''CAB1:''], EList [Tok ''CAB2:'']]]
      = Inl (TypeAlternationViolationError Connector (pfx @ ''CAB2_1'') ''CAB2'' Cable)"
    by (rule scenario_b_lists)
qed

theorem type_alternation_witness:
  "generate_components [(''DB9'', ''nine pins'')] [(''CAB1'', ''three wires'')]
      [(''P1'', ''DB9''), (''W1'', ''CAB1''), (''P2'', ''DB9'')] empty_harness
      [EList [Ref ''P1'' (PInt 1)], EList [Ref ''W1'' (PInt 1)], EList [Ref ''P2'' (PInt 1)] :: string entry]
     = Inr \<lparr>connectors = [(''P1'', ''nine pins''), (''P2'', ''nine pins'')],
            cables = [(''W1'', ''three wires'')], connections = []\<rparr>
   \<and> (\<exists>k0. \<forall>i<length [EList [Ref ''P1'' (PInt 1)], EList [Ref ''W1'' (PInt 1)],
            EList [Ref ''P2'' (PInt 1)] :: string entry]. \<forall>it\<in>set (entry_items
          ([EList [Ref ''P1'' (PInt 1)], EList [Ref ''W1'' (PInt 1)],
            EList [Ref ''P2'' (PInt 1)] :: string entry] ! i)).
          \<exists>d p. it = Ref d p
            \<and> kind_of \<lparr>connectors = [(''P1'', ''nine pins''), (''P2'', ''nine pins'')],
                        cables = [(''W1'', ''three wires'')], connections = []\<rparr> d
                = Some (kind_at k0 i))
   \<and> gen_entries [(''DB9'', ''nine pins'')] [(''CAB1'', ''three wires'')]
        [(''P1'', ''DB9''), (''W1'', ''CAB1''), (''P2'', ''DB9'')] (empty_harness, None)
        [EList [Ref ''P1'' (PInt 1)] :: string entry]
     = Inr (\<lparr>connectors = [(''P1'', ''nine pins'')], cables = [], connections = []\<rparr>, Some Cable)
   \<and> generate_components [(''DB9'', ''nine pins'')] [(''CAB1'', ''three wires'')]
        [(''P1'', ''DB9''), (''W1'', ''CAB1''), (''P2'', ''DB9'')] empty_harness
        ([EList [Ref ''P1'' (PInt 1)]] @ (EList [Ref ''P2'' (PInt 1)] :: string entry) # [])
     = Inl (TypeAlternationViolationError Cable ''P2'' ''DB9'' Connector)"
proof -
  let ?tc = "[(''DB9'', ''nine pins'')]" and ?tcab = "[(''CAB1'', ''three wires'')]"
  let ?dts = "[(''P1'', ''DB9''), (''W1'', ''CAB1''), (''P2'', ''DB9'')]"
  let ?h1 = "\<lparr>connectors = [(''P1'', ''nine pins'')], cables = [], connections = []\<rparr>"
  let ?h' = "\<lparr>connectors = [(''P1'', ''nine pins''), (''P2'', ''nine pins'')],
            cables = [(''W1'', ''three wires'')], connections = []\<rparr>"
  let ?cs = "[EList [Ref ''P1'' (PInt 1)], EList [Ref ''W1'' (PInt 1)],
              EList [Ref ''P2'' (PInt 1)] :: string entry]"
  let ?pre = "[EList [Ref ''P1'' (PInt 1)] :: string entry]"
  let ?entry = "EList [Ref ''P2'' (PInt 1)] :: string entry"
  have g: "generate_components ?tc ?tcab ?dts empty_harness ?cs = Inr ?h'"
    by (simp add: generate_components_def gen_entry_def gen_item_def entry_items_def
        check_type_def alternate_type_def add_connector_def add_cable_def empty_harness_def)
  have pre: "gen_entries ?tc ?tcab ?dts (empty_harness, None) ?pre = Inr (?h1, Some Cable)"
    by (simp add: gen_entry_def gen_item_def entry_items_def
        check_type_def alternate_type_def add_connector_def empty_harness_def)
  have items: "entry_items ?entry = [] @ Ref ''P2'' (PInt 1) # []"
    by (simp add: entry_items_def)
  have before: "gen_items ?tc ?tcab ?dts (?h1, Some Cable) [] = Inr (?h1, Some Cable)" by simp
  have t: "map_of ?dts ''P2'' = Some ''DB9''" by simp
  have a: "actual_type ?tc ?tcab ?h1 ''DB9'' ''P2'' = Some Connector" "Connector \<noteq> Cable"
    by (simp_all add: actual_type_def)
  note inst = type_alternation[of ?tc ?tcab ?dts empty_harness ?cs ?h' "''P2''" "''DB9''" Connector
      ?pre ?h1 "Some Cable" ?entry "[]" "PInt 1" "[]" ?h1 Cable "[]"]
  from conjunct1[OF inst] g
  have e: "\<exists>k0. \<forall>i<length ?cs. \<forall>it\<in>set (entry_items (?cs ! i)).
          \<exists>d p. it = Ref d p \<and> kind_of ?h' d = Some (kind_at k0 i)"
    by (rule mp)
  have hyp: "gen_entries ?tc ?tcab ?dts (empty_harness, None) ?pre = Inr (?h1, Some Cable)
        \<and> entry_items ?entry = [] @ Ref ''P2'' (PInt 1) # []
        \<and> gen_items ?tc ?tcab ?dts (?h1, Some Cable) [] = Inr (?h1, Some Cable)
        \<and> map_of ?dts ''P2'' = Some ''DB9''
        \<and> actual_type ?tc ?tcab ?h1 ''DB9'' ''P2'' = Some Connector \<and> Connector \<noteq> Cable"
    by (rule conjI[OF pre conjI[OF items conjI[OF before conjI[OF t conjI[OF a(1) a(2)]]]]])
  from conjunct1[OF conjunct2[OF conjunct2[OF inst]]] hyp
  have m: "generate_components ?tc ?tcab ?dts empty_harness (?pre @ ?entry # [])
     = Inl (TypeAlternationViolationError Cable ''P2'' ''DB9'' Connector)"
    by (rule mp)
  show ?thesis by (rule conjI[OF g conjI[OF e conjI[OF pre m]]])
qed

section \<open>The connect pass within the processing of a connection set\<close>

lemma those_ok_refs:
  "list_all is_ref its \<Longrightarrow>
     \<exists>r. those_ok (map item_ref its) = Inr r \<and> length r = length its"
proof (induction its)
  case Nil
  then show ?case by simp
next
  case (Cons it its)
  then obtain r where r: "those_ok (map item_ref its) = Inr r" "length r = length its" by auto
  from Cons.prems obtain d p where "it = Ref d p" by (cases it) (auto simp: is_ref_def)
  then have "item_ref it = Inr (d, p)" by (simp add: item_ref_def)
  with r have "those_ok (map item_ref (it # its)) = Inr ((d, p) # r)
        \<and> length ((d, p) # r) = length (it # its)" by simp
  then show ?case by (intro exI[of _ "(d, p) # r"])
qed

lemma rows_of_rows:
  "list_all (is_row n) cs3 \<Longrightarrow>
     \<exists>rows. rows_of cs3 = Inr rows \<and> length rows = length cs3 \<and> list_all (\<lambda>r. length r = n) rows"
proof (induction cs3)
  case Nil
  then show ?case by (simp add: rows_of_def)
next
  case (Cons e cs3)
  then obtain rows where rows: "rows_of cs3 = Inr rows" "length rows = length cs3"
    "list_all (\<lambda>r. length r = n) rows" by auto
  from Cons.prems obtain its where e: "e = EList its" "length its = n" "list_all is_ref its"
    by (cases e) (auto simp: is_row_def)
  from those_ok_refs[OF e(3)] obtain r where
    r: "those_ok (map item_ref its) = Inr r" "length r = length its" by blast
  have "rows_of (e # cs3) = Inr (r # rows)"
    using rows(1) r(1) e(1) by (simp add: rows_of_def entry_items_def)
  with rows r e show ?case by simp
qed

lemma min_len_rect:
  "rows \<noteq> [] \<Longrightarrow> list_all (\<lambda>r. length r = n) rows \<Longrightarrow> min_len rows = n"
  by (induction rows rule: min_len.induct) simp_all

lemma zip_star_rect:
  "rows \<noteq> [] \<Longrightarrow> list_all (\<lambda>r. length r = n) rows \<Longrightarrow>
     zip_star rows = map (path_of rows) [0..<n]"
  by (simp add: zip_star_def min_len_rect path_of_def)

lemma gen_item_connections:
  assumes "gen_item tc tcab dts (h, ex) it = Inr (h', ex')"
  shows "connections h' = connections h"
proof -
  from gen_item_cases[OF assms] obtain d t where
    "h' = h \<or> (\<exists>at. h' = add_connector h d at) \<or> (\<exists>at. h' = add_cable h d at)"
    by blast
  then show ?thesis by (auto simp: add_connector_def add_cable_def)
qed

lemma gen_items_connections:
  "gen_items tc tcab dts (h, ex) its = Inr (h', ex') \<Longrightarrow> connections h' = connections h"
proof (induction its arbitrary: h ex)
  case Nil
  then show ?case by simp
next
  case (Cons it its)
  from Cons.prems obtain h1 ex1 where
    a: "gen_item tc tcab dts (h, ex) it = Inr (h1, ex1)"
    and b: "gen_items tc tcab dts (h1, ex1) its = Inr (h', ex')"
    by (auto split: sum.splits)
  from Cons.IH[OF b] gen_item_connections[OF a] show ?case by simp
qed

lemma gen_entries_connections:
  "gen_entries tc tcab dts (h, ex) cs = Inr (h', ex') \<Longrightarrow> connections h' = connections h"
proof (induction cs arbitrary: h ex)
  case Nil
  then show ?case by simp
next
  case (Cons entry cs)
  from Cons.prems obtain h1 ex1 where
    a: "gen_entry tc tcab dts (h, ex) entry = Inr (h1, ex1)"
    and b: "gen_entries tc tcab dts (h1, ex1) cs = Inr (h', ex')"
    by (auto split: sum.splits)
  from gen_entry_parts[OF a] obtain k where
    "gen_items tc tcab dts (h, ex) (entry_items entry) = Inr (h1, Some k)" by blast
  from gen_items_connections[OF this] Cons.IH[OF b] show ?case by simp
qed

lemma generate_components_connections:
  assumes "generate_components tc tcab dts h cs = Inr h'"
  shows "connections h' = connections h"
proof -
  from assms obtain ex' where "gen_entries tc tcab dts (h, None) cs = Inr (h', ex')"
    unfolding generate_components_def by (auto split: sum.splits)
  then show ?thesis by (rule gen_entries_connections)
qed

lemma normalize_set_nonempty:
  assumes "normalize_set pfx sep expand rs cs = Inr (rs1, n, cs3)"
  shows "cs \<noteq> []"
proof
  assume "cs = []"
  with normalize_set_parts[OF assms] show False by (auto simp: determine_count_def)
qed

lemma path_of_nth: "i < length rows \<Longrightarrow> path_of rows j ! i = rows ! i ! j"
  by (simp add: path_of_def)

lemma path_of_length: "length (path_of rows j) = length rows"
  by (simp add: path_of_def)

lemma path_endpoints:
  assumes "i < length rows"
  shows "case connection_at (path_of rows j) i of
           Connection f v t \<Rightarrow>
             (f = None \<longleftrightarrow> i = 0) \<and> (t = None \<longleftrightarrow> Suc i = length rows) \<and> v = rows ! i ! j
             \<and> (0 < i \<longrightarrow> f = Some (rows ! (i - 1) ! j))
             \<and> (Suc i < length rows \<longrightarrow> t = Some (rows ! Suc i ! j))"
  using assms by (simp add: connection_at_def path_of_def)

lemma process_set_connect:
  assumes n: "normalize_set pfx sep expand rs cs = Inr (rs1, n, cs3)"
    and g: "generate_components tc tcab (designators_and_templates rs1) h cs3 = Inr h1"
    and r: "rows_of cs3 = Inr rows"
    and z: "zip_star rows = map (path_of rows) [0..<n]"
  shows "process_set pfx sep expand tc tcab (rs, h) cs
     = Inr (rs1,
            h1\<lparr>connections := connections h @
                 concat (map (\<lambda>j. map (connection_at (path_of rows j))
                                     (cable_positions h1 (path_of rows j))) [0..<n])\<rparr>,
            cs3)"
proof -
  have "process_set pfx sep expand tc tcab (rs, h) cs
          = Inr (rs1, connect_components h1 (zip_star rows), cs3)"
    unfolding process_set_def fst_conv snd_conv n using g r by simp
  also have "connect_components h1 (zip_star rows)
      = h1\<lparr>connections := connections h @
                 concat (map (\<lambda>j. map (connection_at (path_of rows j))
                                     (cable_positions h1 (path_of rows j))) [0..<n])\<rparr>"
    unfolding connect_components_eq z generate_components_connections[OF g]
    by (simp add: comp_def)
  finally show ?thesis .
qed


section \<open>Claims about the connect pass\<close>

text \<open>
  Claim C8. Let a connection set be normalised to \<open>n\<close> parallel paths and its
  components be generated. The transposition of its rows gives the \<open>n\<close> paths, each
  with one position for every entry of the set, and processing the set appends to the
  connections exactly one record for every path and every position of the path that holds
  a cable, in the order of the paths and positions. In the record of a position the
  endpoint before the cable is absent exactly at the first position of the path and the
  endpoint after it exactly at the last one; elsewhere they are the \<open>(designator, pin)\<close>
  of the neighbouring rows on the same path.
\<close>

theorem connect_pass_records:
  assumes "normalize_set pfx sep expand rs cs = Inr (rs1, n, cs3)"
    and "generate_components tc tcab (designators_and_templates rs1) h cs3 = Inr h1"
  shows "\<exists>rows. rows_of cs3 = Inr rows \<and> length rows = length cs
          \<and> list_all (\<lambda>r. length r = n) rows
          \<and> zip_star rows = map (path_of rows) [0..<n]
          \<and> process_set pfx sep expand tc tcab (rs, h) cs
              = Inr (rs1,
                     h1\<lparr>connections := connections h @
                          concat (map (\<lambda>j. map (connection_at (path_of rows j))
                                              (cable_positions h1 (path_of rows j))) [0..<n])\<rparr>,
                     cs3)
          \<and> (\<forall>j<n. length (path_of rows j) = length cs
                \<and> (\<forall>i<length cs. path_of rows j ! i = rows ! i ! j
                      \<and> (case connection_at (path_of rows j) i of
                            Connection f v t \<Rightarrow>
                              (f = None \<longleftrightarrow> i = 0) \<and> (t = None \<longleftrightarrow> Suc i = length cs)
                              \<and> v = rows ! i ! j
                              \<and> (0 < i \<longrightarrow> f = Some (rows ! (i - 1) ! j))
                              \<and> (Suc i < length cs \<longrightarrow> t = Some (rows ! Suc i ! j)))))"
proof -
  from rows_after_normalize[OF assms(1)]
  have len3: "length cs3 = length cs" and rowsn: "list_all (is_row n) cs3" by simp_all
  from rows_of_rows[OF rowsn] obtain rows where
    r: "rows_of cs3 = Inr rows" and lr: "length rows = length cs3"
    and all: "list_all (\<lambda>r. length r = n) rows" by blast
  from normalize_set_nonempty[OF assms(1)] len3 lr have ne: "rows \<noteq> []" by auto
  from zip_star_rect[OF ne all] have z: "zip_star rows = map (path_of rows) [0..<n]" .
  note p = process_set_connect[OF assms r z]
  from lr len3 have l: "length rows = length cs" by simp
  have e: "\<forall>j<n. length (path_of rows j) = length cs
                \<and> (\<forall>i<length cs. path_of rows j ! i = rows ! i ! j
                      \<and> (case connection_at (path_of rows j) i of
                            Connection f v t \<Rightarrow>
                              (f = None \<longleftrightarrow> i = 0) \<and> (t = None \<longleftrightarrow> Suc i = length cs)
                              \<and> v = rows ! i ! j
                              \<and> (0 < i \<longrightarrow> f = Some (rows ! (i - 1) ! j))
                              \<and> (Suc i < length cs \<longrightarrow> t = Some (rows ! Suc i ! j))))"
    using path_endpoints[of _ rows] path_of_nth[of _ rows] path_of_length[of rows]
    unfolding l by simp
  from r l all z p e show ?thesis by (intro exI[of _ rows] conjI)
qed

theorem connect_pass_records_witness:
  "normalize_set ''__'' CHR '':'' expand_spec empty_resolver
      [EStr ''DB9:P1'', EDict [(''CAB1:'', ''1-3'')], EStr ''DB9:P2'']
   = Inr (\<lparr>designators_and_templates =
             [(''P1'', ''DB9''), (''__CAB1_1'', ''CAB1''), (''P2'', ''DB9'')],
           autogenerated_designators = [(''CAB1'', 1)]\<rparr>, 3,
          [EList [Ref ''P1'' (PInt 1), Ref ''P1'' (PInt 1), Ref ''P1'' (PInt 1)],
           EList [Ref ''__CAB1_1'' (PInt 1), Ref ''__CAB1_1'' (PInt 2), Ref ''__CAB1_1'' (PInt 3)],
           EList [Ref ''P2'' (PInt 1), Ref ''P2'' (PInt 1), Ref ''P2'' (PInt 1)]])
   \<and> generate_components [(''DB9'', ''nine pins'')] [(''CAB1'', ''three wires'')]
        (designators_and_templates
          \<lparr>designators_and_templates =
             [(''P1'', ''DB9''), (''__CAB1_1'', ''CAB1''), (''P2'', ''DB9'')],
           autogenerated_designators = [(''CAB1'', 1)]\<rparr>)
        empty_harness
        [EList [Ref ''P1'' (PInt 1), Ref ''P1'' (PInt 1), Ref ''P1'' (PInt 1)],
         EList [Ref ''__CAB1_1'' (PInt 1), Ref ''__CAB1_1'' (PInt 2), Ref ''__CAB1_1'' (PInt 3)],
         EList [Ref ''P2'' (PInt 1), Ref ''P2'' (PInt 1), Ref ''P2'' (PInt 1)] :: string entry]
     = Inr \<lparr>connectors = [(''P1'', ''nine pins''), (''P2'', ''nine pins'')],
            cables = [(''__CAB1_1'', ''three wires'')], connections = []\<rparr>
   \<and> process_set ''__'' CHR '':'' expand_spec [(''DB9'', ''nine pins'')] [(''CAB1'', ''three wires'')]
        (empty_resolver, empty_harness)
        [EStr ''DB9:P1'', EDict [(''CAB1:'', ''1-3'')], EStr ''DB9:P2'']
     = Inr (\<lparr>designators_and_templates =
               [(''P1'', ''DB9''), (''__CAB1_1'', ''CAB1''), (''P2'', ''DB9'')],
             autogenerated_designators = [(''CAB1'', 1)]\<rparr>,
            \<lparr>connectors = [(''P1'', ''nine pins''), (''P2'', ''nine pins'')],
             cables = [(''__CAB1_1'', ''three wires'')],
             connections =
               [Connection (Some (''P1'', PInt 1)) (''__CAB1_1'', PInt 1) (Some (''P2'', PInt 1)),
                Connection (Some (''P1'', PInt 1)) (''__CAB1_1'', PInt 2) (Some (''P2'', PInt 1)),
                Connection (Some (''P1'', PInt 1)) (''__CAB1_1'', PInt 3) (Some (''P2'', PInt 1))]\<rparr>,
            [EList [Ref ''P1'' (PInt 1), Ref ''P1'' (PInt 1), Ref ''P1'' (PInt 1)],
             EList [Ref ''__CAB1_1'' (PInt 1), Ref ''__CAB1_1'' (PInt 2), Ref ''__CAB1_1'' (PInt 3)],
             EList [Ref ''P2'' (PInt 1), Ref ''P2'' (PInt 1), Ref ''P2'' (PInt 1)]])"
proof -
  let ?R = "\<lparr>designators_and_templates =
             [(''P1'', ''DB9''), (''__CAB1_1'', ''CAB1''), (''P2'', ''DB9'')],
           autogenerated_designators = [(''CAB1'', 1)]\<rparr>"
  let ?cs3 = "[EList [Ref ''P1'' (PInt 1), Ref ''P1'' (PInt 1), Ref ''P1'' (PInt 1)],
         EList [Ref ''__CAB1_1'' (PInt 1), Ref ''__CAB1_1'' (PInt 2), Ref ''__CAB1_1'' (PInt 3)],
         EList [Ref ''P2'' (PInt 1), Ref ''P2'' (PInt 1), Ref ''P2'' (PInt 1)] :: string entry]"
  let ?H1 = "\<lparr>connectors = [(''P1'', ''nine pins''), (''P2'', ''nine pins'')],
            cables = [(''__CAB1_1'', ''three wires'')], connections = []\<rparr>"
  let ?rows = "[[(''P1'', PInt 1), (''P1'', PInt 1), (''P1'', PInt 1)],
          [(''__CAB1_1'', PInt 1), (''__CAB1_1'', PInt 2), (''__CAB1_1'', PInt 3)],
          [(''P2'', PInt 1), (''P2'', PInt 1), (''P2'', PInt 1)]]"
  have n: "normalize_set ''__'' CHR '':'' expand_spec empty_resolver
      [EStr ''DB9:P1'', EDict [(''CAB1:'', ''1-3'')], EStr ''DB9:P2''] = Inr (?R, 3, ?cs3)"
    using scenario_a_normalize[of "''__''"] by simp
  have g: "generate_components [(''DB9'', ''nine pins'')] [(''CAB1'', ''three wires'')]
        (designators_and_templates ?R) empty_harness ?cs3 = Inr ?H1"
    using scenario_a_generate[of "''__CAB1_1''" "''nine pins''" "''three wires''"] by simp
  from connect_pass_records[OF n g] obtain rows where
    r: "rows_of ?cs3 = Inr rows"
    and p: "process_set ''__'' CHR '':'' expand_spec [(''DB9'', ''nine pins'')]
              [(''CAB1'', ''three wires'')] (empty_resolver, empty_harness)
              [EStr ''DB9:P1'', EDict [(''CAB1:'', ''1-3'')], EStr ''DB9:P2'']
        = Inr (?R, ?H1\<lparr>connections := connections (empty_harness :: string harness) @
                 concat (map (\<lambda>j. map (connection_at (path_of rows j))
                                     (cable_positions ?H1 (path_of rows j))) [0..<3])\<rparr>, ?cs3)"
    by blast
  from r scenario_a_rows[of "''__CAB1_1''"] have rows: "rows = ?rows" by simp
  have c: "concat (map (\<lambda>j. map (connection_at (path_of ?rows j))
                                     (cable_positions ?H1 (path_of ?rows j))) [0..<3])
     = [Connection (Some (''P1'', PInt 1)) (''__CAB1_1'', PInt 1) (Some (''P2'', PInt 1)),
        Connection (Some (''P1'', PInt 1)) (''__CAB1_1'', PInt 2) (Some (''P2'', PInt 1)),
        Connection (Some (''P1'', PInt 1)) (''__CAB1_1'', PInt 3) (Some (''P2'', PInt 1))]"
    by (simp add: path_of_def cable_positions_def connection_at_def upt_conv_Cons)
  from p have p': "process_set ''__'' CHR '':'' expand_spec [(''DB9'', ''nine pins'')]
              [(''CAB1'', ''three wires'')] (empty_resolver, empty_harness)
              [EStr ''DB9:P1'', EDict [(''CAB1:'', ''1-3'')], EStr ''DB9:P2'']
        = Inr (?R, \<lparr>connectors = [(''P1'', ''nine pins''), (''P2'', ''nine pins'')],
             cables = [(''__CAB1_1'', ''three wires'')],
             connections =
               [Connection (Some (''P1'', PInt 1)) (''__CAB1_1'', PInt 1) (Some (''P2'', PInt 1)),
                Connection (Some (''P1'', PInt 1)) (''__CAB1_1'', PInt 2) (Some (''P2'', PInt 1)),
                Connection (Some (''P1'', PInt 1)) (''__CAB1_1'', PInt 3) (Some (''P2'', PInt 1))]\<rparr>,
            ?cs3)"
    unfolding rows c by (simp add: empty_harness_def)
  show ?thesis by (rule conjI[OF n conjI[OF g p']])
qed


end
